theory Spec2Isabelle
  imports Complex_Main
begin

section \<open>The Tap input adapter (packages/threeGraphics/src/tap/index.ts)\<close>

text \<open>
  The class \<open>Tap\<close> listens to the touch, mouse and pointer events of one DOM
  element and republishes them as \<open>down\<close>, \<open>move\<close> and \<open>up\<close>. The model below
  is a state machine: one record holds the fields of the instance together with
  the part of the browser the class reads and writes (the listeners attached to
  the element and to the document, the pointer-lock element, the promises handed
  out), and every method is a function from state to state.

  Modelling decisions:
  \<^item> a JavaScript number that may be absent (\<open>undefined\<close>) is a \<open>real option\<close>;
    DOM coordinates are finite, so \<open>===\<close> and \<open>==\<close> on them are HOL equality, and a
    number is truthy when it is present and not zero;
  \<^item> the object \<open>{x, y}\<close> is the pair \<open>(x, y)\<close>;
  \<^item> a subscriber's callback is opaque: calling it appends an entry to \<open>log\<close>,
    changes nothing else and returns normally; the callback the class subscribes
    itself can throw, and then the emitter's loop stops;
  \<^item> a promise is a number; the promises whose \<open>resolve\<close> has been called are in
    \<open>settled\<close>;
  \<^item> \<open>destroy()\<close> invalidates the instance and is not part of the state machine.
\<close>

subsection \<open>Data\<close>

datatype EventTypes = Touch | Mouse | Pointer

type_synonym number = "real option"

type_synonym position = "number \<times> number"

record TouchPoint =
  pageX :: number
  pageY :: number

text \<open>The fields of a DOM event that the class reads (\<open>e: any\<close>).\<close>

record Event =
  etype :: string
  touches :: "TouchPoint list option"
  clientX :: number
  clientY :: number
  movementX :: number
  movementY :: number

record TapEvent =
  position :: position
  event :: Event
  dragging :: "bool option"

datatype tapname = Down | Move | Up

datatype handler = OnDown | OnMove | OnUp

datatype element = Window | Element nat

text \<open>
  A callback handed to the event emitter: a subscriber's own function, or the
  function \<open>() => this.domElement?.requestPointerLock()\<close> that
  \<open>pointerLock.request\<close> subscribes itself.
\<close>

datatype callback = UserCallback nat | RequestPointerLock

text \<open>Which wrapper subscribed the callback: \<open>on.*\<close> or \<open>once.*\<close>.\<close>

datatype subscription = On | Once

type_synonym listener = "tapname \<times> subscription \<times> callback"

datatype effect =
  Call subscription callback tapname TapEvent
| ExitPointerLock

text \<open>The object \<open>{ touch: .., mouse: .., pointer: .. }\<close> of \<open>active\<close> and \<open>registered\<close>.\<close>

record flags =
  touch :: bool
  mouse :: bool
  pointer :: bool

fun get_flag :: "flags \<Rightarrow> EventTypes \<Rightarrow> bool" where
  "get_flag fl Touch = touch fl"
| "get_flag fl Mouse = mouse fl"
| "get_flag fl Pointer = pointer fl"

fun set_flag :: "flags \<Rightarrow> EventTypes \<Rightarrow> bool \<Rightarrow> flags" where
  "set_flag fl Touch b = fl\<lparr>touch := b\<rparr>"
| "set_flag fl Mouse b = fl\<lparr>mouse := b\<rparr>"
| "set_flag fl Pointer b = fl\<lparr>pointer := b\<rparr>"

record event_names =
  down :: string
  move :: string
  up :: string

record input =
  name :: EventTypes
  test :: bool
  enabled :: bool
  events :: event_names

record state =
  emitter :: "listener list"
  domElement :: element
  isDown :: bool
  isPaused :: bool
  active :: flags
  registered :: flags
  currentPosition :: position
  lastPosition :: position
  elementListeners :: "(string \<times> handler) list"
  documentListeners :: "nat list"
  pointerLockElement :: "element option"
  settled :: "nat list"
  promises :: nat
  log :: "effect list"

subsection \<open>The event matrix\<close>

text \<open>
  Modelled from the spec: \<open>eventMatrix\<close> is imported from \<open>./eventMatrix\<close>, which is
  not among the source files. Section 6 of the specification gives the three
  families and their event names; whether a family is supported by the runtime
  (\<open>test\<close>) and switched on (\<open>enabled\<close>) depends on the environment and is a
  parameter.
\<close>

definition eventMatrix :: "(EventTypes \<Rightarrow> bool) \<Rightarrow> (EventTypes \<Rightarrow> bool) \<Rightarrow> input list" where
  "eventMatrix tst en =
     [\<lparr>name = Touch, test = tst Touch, enabled = en Touch,
        events = \<lparr>down = ''touchstart'', move = ''touchmove'', up = ''touchend''\<rparr>\<rparr>,
      \<lparr>name = Mouse, test = tst Mouse, enabled = en Mouse,
        events = \<lparr>down = ''mousedown'', move = ''mousemove'', up = ''mouseup''\<rparr>\<rparr>,
      \<lparr>name = Pointer, test = tst Pointer, enabled = en Pointer,
        events = \<lparr>down = ''pointerdown'', move = ''pointermove'', up = ''pointerup''\<rparr>\<rparr>]"

subsection \<open>Browser primitives\<close>

text \<open>
  \<open>addEventListener\<close> ignores a listener that is already attached with the same
  type and callback; \<open>removeEventListener\<close> detaches it.
\<close>

definition addEventListener ::
  "(string \<times> handler) list \<Rightarrow> string \<Rightarrow> handler \<Rightarrow> (string \<times> handler) list" where
  "addEventListener ls t h = (if (t, h) \<in> set ls then ls else ls @ [(t, h)])"

definition removeEventListener ::
  "(string \<times> handler) list \<Rightarrow> string \<Rightarrow> handler \<Rightarrow> (string \<times> handler) list" where
  "removeEventListener ls t h = removeAll (t, h) ls"

text \<open>\<open>isLocked: !!document.pointerLockElement\<close>, read at every access.\<close>

definition isLocked :: "state \<Rightarrow> bool" where
  "isLocked s = (pointerLockElement s \<noteq> None)"

text \<open>Truthiness of a number: \<open>undefined\<close> and \<open>0\<close> are falsy.\<close>

definition truthy :: "number \<Rightarrow> bool" where
  "truthy v = (case v of None \<Rightarrow> False | Some r \<Rightarrow> r \<noteq> 0)"

subsection \<open>The event emitter\<close>

text \<open>
  The callback \<open>() => this.domElement?.requestPointerLock()\<close> throws a TypeError
  when the target is the window (\<open>element ?? window\<close> in \<open>_add\<close>): \<open>?.\<close> guards a
  missing target only, and the window has no method \<open>requestPointerLock\<close>. On
  an element the call returns.
\<close>

definition throws :: "element \<Rightarrow> callback \<Rightarrow> bool" where
  "throws el c = (c = RequestPointerLock \<and> el = Window)"

text \<open>
  \<open>@yandeu/events\<close> is an external package. \<open>emit\<close> goes through the listeners in
  the order of their registration and calls those of the event; a listener
  registered with \<open>once\<close> is removed before it is called. The wrapper that \<open>on.*\<close>
  registers calls the subscriber only when \<open>_isPaused\<close> is false; the wrapper of
  \<open>once.*\<close> always calls it. When a callback throws, the exception leaves the
  loop: the listeners after it are neither called nor removed. \<open>deliver\<close> is the
  loop; it returns the listeners that stay registered and the calls made.
\<close>

fun deliver ::
  "bool \<Rightarrow> element \<Rightarrow> tapname \<Rightarrow> TapEvent \<Rightarrow> listener list \<Rightarrow> listener list \<times> effect list" where
  "deliver paused el n d [] = ([], [])"
| "deliver paused el n d ((n', k, c) # ls) =
     (let rest = deliver paused el n d ls;
          keep = (if n' = n \<and> k = Once then [] else [(n', k, c)])
      in if n' \<noteq> n \<or> (k = On \<and> paused) then (keep @ fst rest, snd rest)
         else if throws el c then (keep @ ls, [Call k c n d])
         else (keep @ fst rest, Call k c n d # snd rest))"

definition calls :: "state \<Rightarrow> tapname \<Rightarrow> TapEvent \<Rightarrow> effect list" where
  "calls s n d = snd (deliver (isPaused s) (domElement s) n d (emitter s))"

definition emit :: "state \<Rightarrow> tapname \<Rightarrow> TapEvent \<Rightarrow> state" where
  "emit s n d =
     s\<lparr>emitter := fst (deliver (isPaused s) (domElement s) n d (emitter s)),
       log := log s @ calls s n d\<rparr>"

definition tap_on :: "state \<Rightarrow> tapname \<Rightarrow> callback \<Rightarrow> state" where
  "tap_on s n c = s\<lparr>emitter := emitter s @ [(n, On, c)]\<rparr>"

definition tap_once :: "state \<Rightarrow> tapname \<Rightarrow> callback \<Rightarrow> state" where
  "tap_once s n c = s\<lparr>emitter := emitter s @ [(n, Once, c)]\<rparr>"

subsection \<open>The methods of Tap\<close>

text \<open>The setter \<open>_position\<close>.\<close>

definition set_position :: "state \<Rightarrow> position \<Rightarrow> state" where
  "set_position s p =
     (if fst p = fst (currentPosition s) \<and> snd p = snd (currentPosition s) then s
      else s\<lparr>lastPosition := currentPosition s, currentPosition := p\<rparr>)"

definition pause :: "state \<Rightarrow> state" where
  "pause s = s\<lparr>isPaused := True\<rparr>"

definition resume :: "state \<Rightarrow> state" where
  "resume s = s\<lparr>isPaused := False\<rparr>"

text \<open>\<open>_add\<close>: one step of the \<open>forEach\<close>, then the whole method.\<close>

definition add_input :: "state \<Rightarrow> input \<Rightarrow> state" where
  "add_input s i =
     (if test i \<and> enabled i then
        s\<lparr>active := set_flag (active s) (name i) True,
          elementListeners :=
            addEventListener
              (addEventListener
                 (addEventListener (elementListeners s) (down (events i)) OnDown)
                 (move (events i)) OnMove)
              (up (events i)) OnUp\<rparr>
      else s)"

definition tap_add :: "input list \<Rightarrow> state \<Rightarrow> element option \<Rightarrow> state" where
  "tap_add M s el =
     foldl add_input (s\<lparr>domElement := (case el of None \<Rightarrow> Window | Some x \<Rightarrow> x)\<rparr>) M"

text \<open>\<open>_remove\<close>.\<close>

definition remove_input :: "EventTypes \<Rightarrow> state \<Rightarrow> input \<Rightarrow> state" where
  "remove_input ty s i =
     (if name i = ty then
        s\<lparr>elementListeners :=
            removeEventListener
              (removeEventListener
                 (removeEventListener (elementListeners s) (down (events i)) OnDown)
                 (move (events i)) OnMove)
              (up (events i)) OnUp\<rparr>
      else s)"

definition tap_remove :: "input list \<Rightarrow> state \<Rightarrow> EventTypes \<Rightarrow> state" where
  "tap_remove M s ty =
     (if \<not> get_flag (active s) ty then s
      else (let s' = foldl (remove_input ty) s M
            in s'\<lparr>active := set_flag (active s') ty False\<rparr>))"

text \<open>The state a new instance starts from, and the constructor.\<close>

definition fresh :: "element option \<Rightarrow> state" where
  "fresh lock =
     \<lparr>emitter = [], domElement = Window, isDown = False, isPaused = False,
      active = \<lparr>touch = False, mouse = False, pointer = False\<rparr>,
      registered = \<lparr>touch = False, mouse = False, pointer = False\<rparr>,
      currentPosition = (Some (- 1), Some (- 1)),
      lastPosition = (Some (- 1), Some (- 1)),
      elementListeners = [], documentListeners = [], pointerLockElement = lock,
      settled = [], promises = 0, log = []\<rparr>"

definition Tap :: "input list \<Rightarrow> element option \<Rightarrow> element option \<Rightarrow> state" where
  "Tap M lock el = tap_add M (fresh lock) el"

text \<open>\<open>_calcPosition\<close> returns the position and updates the state through the setter.\<close>

definition calcPosition :: "state \<Rightarrow> Event \<Rightarrow> position \<times> state" where
  "calcPosition s e =
     (let p = (case touches e of
                 Some (t # ts) \<Rightarrow> (pageX t, pageY t)
               | _ \<Rightarrow> if truthy (clientX e) then (clientX e, clientY e)
                      else (fst (currentPosition s), snd (currentPosition s)));
          p' = (if isLocked s then (movementX e, movementY e) else p)
      in (p', set_position s p'))"

text \<open>\<open>_removeDuplicates\<close> returns whether to proceed, and the state.\<close>

definition removeDuplicates :: "input list \<Rightarrow> state \<Rightarrow> Event \<Rightarrow> bool \<times> state" where
  "removeDuplicates M s e =
     (let s1 = (if etype e = ''pointerdown''
                then s\<lparr>registered := (registered s)\<lparr>pointer := True\<rparr>\<rparr> else s);
          s2 = (if etype e = ''touchstart''
                then s1\<lparr>registered := (registered s1)\<lparr>touch := True\<rparr>\<rparr> else s1);
          s3 = (if etype e = ''mousedown''
                then s2\<lparr>registered := (registered s2)\<lparr>mouse := True\<rparr>\<rparr> else s2)
      in if etype e = ''touchstart'' \<and> touch (active s3) \<and> pointer (registered s3)
         then (False, tap_remove M s3 Touch)
         else if etype e = ''mousedown'' \<and> mouse (active s3)
                 \<and> (pointer (registered s3) \<or> touch (registered s3))
         then (False, tap_remove M s3 Mouse)
         else (True, s3))"

definition onDown :: "input list \<Rightarrow> state \<Rightarrow> Event \<Rightarrow> state" where
  "onDown M s e =
     (case removeDuplicates M s e of (proceed, s1) \<Rightarrow>
        if \<not> proceed then s1
        else (case calcPosition (s1\<lparr>isDown := True\<rparr>) e of (p, s2) \<Rightarrow>
                emit s2 Down \<lparr>position = p, event = e, dragging = None\<rparr>))"

definition onMove :: "state \<Rightarrow> Event \<Rightarrow> state" where
  "onMove s e =
     (case calcPosition s e of (p, s1) \<Rightarrow>
        emit s1 Move \<lparr>position = p, event = e, dragging = Some (isDown s1)\<rparr>)"

definition onUp :: "state \<Rightarrow> Event \<Rightarrow> state" where
  "onUp s e =
     (case calcPosition (s\<lparr>isDown := False\<rparr>) e of (p, s1) \<Rightarrow>
        emit s1 Up \<lparr>position = p, event = e, dragging = None\<rparr>)"

text \<open>
  \<open>pointerLock.request\<close> and \<open>pointerLock.exit\<close>: the executor of the promise runs
  at once. The promise returned is the number allocated; a listener for
  \<open>pointerlockchange\<close> on the document is recorded as the promise it resolves.
\<close>

definition pointerLock_request :: "state \<Rightarrow> nat \<times> state" where
  "pointerLock_request s =
     (let p = promises s; s0 = s\<lparr>promises := Suc p\<rparr>
      in if isLocked s0 then (p, s0)
         else (p, tap_once (s0\<lparr>documentListeners := documentListeners s0 @ [p]\<rparr>)
                    Down RequestPointerLock))"

definition pointerLock_exit :: "state \<Rightarrow> nat \<times> state" where
  "pointerLock_exit s =
     (let p = promises s; s0 = s\<lparr>promises := Suc p\<rparr>
      in if \<not> isLocked s0 then (p, s0)
         else (p, s0\<lparr>documentListeners := documentListeners s0 @ [p],
                     log := log s0 @ [ExitPointerLock]\<rparr>))"

subsection \<open>The browser and the state machine\<close>

text \<open>
  The browser dispatches an event to the listeners the element holds for its
  type when the dispatch starts, skipping one that was detached meanwhile.
\<close>

definition run_handler :: "input list \<Rightarrow> state \<Rightarrow> handler \<Rightarrow> Event \<Rightarrow> state" where
  "run_handler M s h e =
     (case h of OnDown \<Rightarrow> onDown M s e | OnMove \<Rightarrow> onMove s e | OnUp \<Rightarrow> onUp s e)"

definition dispatch :: "input list \<Rightarrow> state \<Rightarrow> Event \<Rightarrow> state" where
  "dispatch M s e =
     foldl (\<lambda>s' h. if (etype e, h) \<in> set (elementListeners s') then run_handler M s' h e else s')
       s (map snd (filter (\<lambda>(t, h). t = etype e) (elementListeners s)))"

text \<open>
  The pointer-lock element changes and \<open>pointerlockchange\<close> fires on the
  document: every listener (registered with \<open>once: true\<close>) resolves its promise
  and is removed.
\<close>

definition lockChange :: "state \<Rightarrow> element option \<Rightarrow> state" where
  "lockChange s l =
     s\<lparr>pointerLockElement := l, settled := settled s @ documentListeners s,
       documentListeners := []\<rparr>"

datatype action =
  Dispatch Event
| Pause
| Resume
| Subscribe subscription tapname nat
| Request
| Exit
| LockChange "element option"

fun step :: "input list \<Rightarrow> state \<Rightarrow> action \<Rightarrow> state" where
  "step M s (Dispatch e) = dispatch M s e"
| "step M s Pause = pause s"
| "step M s Resume = resume s"
| "step M s (Subscribe On n c) = tap_on s n (UserCallback c)"
| "step M s (Subscribe Once n c) = tap_once s n (UserCallback c)"
| "step M s Request = snd (pointerLock_request s)"
| "step M s Exit = snd (pointerLock_exit s)"
| "step M s (LockChange l) = lockChange s l"

definition run :: "input list \<Rightarrow> state \<Rightarrow> action list \<Rightarrow> state" where
  "run M s acts = foldl (step M) s acts"

subsection \<open>Reachable states\<close>

text \<open>
  The listeners the element holds when the families flagged in \<open>a\<close> are attached,
  in the order of the matrix, and the invariant that the element holds exactly
  the listeners of the active families.
\<close>

definition attached :: "input list \<Rightarrow> flags \<Rightarrow> (string \<times> handler) list" where
  "attached M a =
     concat (map (\<lambda>i. if get_flag a (name i)
                      then [(down (events i), OnDown), (move (events i), OnMove),
                            (up (events i), OnUp)]
                      else []) M)"

definition wf :: "input list \<Rightarrow> state \<Rightarrow> bool" where
  "wf M s = (elementListeners s = attached M (active s))"

text \<open>
  Between a state and a later one, a family that was registered stays registered,
  a family that was inactive stays inactive, and the pointer family keeps its
  listeners.
\<close>

definition flags_le :: "flags \<Rightarrow> flags \<Rightarrow> bool" where
  "flags_le a b =
     ((touch a \<longrightarrow> touch b) \<and> (mouse a \<longrightarrow> mouse b) \<and> (pointer a \<longrightarrow> pointer b))"

definition advances :: "state \<Rightarrow> state \<Rightarrow> bool" where
  "advances s s' =
     (flags_le (registered s) (registered s') \<and> flags_le (active s') (active s)
      \<and> pointer (active s') = pointer (active s))"

text \<open>What a step appended to the log: the callbacks it called.\<close>

definition published :: "state \<Rightarrow> state \<Rightarrow> effect list" where
  "published s s' = drop (length (log s)) (log s')"

text \<open>
  Sequences of events. \<open>states\<close> lists the state before the first event and the
  state after each event. A cycle is a down event, moves and an up event; it
  comes from the family \<open>i\<close> when its events carry the names of that family.
  \<open>cycles_ok\<close> holds of a sequence of cycles dispatched from \<open>s\<close> when each cycle
  comes from a family that is active when the cycle starts and its down event
  is not suppressed.
\<close>

type_synonym cycle = "Event \<times> Event list \<times> Event"

fun cycle_events :: "cycle \<Rightarrow> Event list" where
  "cycle_events (d, ms, u) = d # ms @ [u]"

fun states :: "input list \<Rightarrow> state \<Rightarrow> Event list \<Rightarrow> state list" where
  "states M s [] = [s]"
| "states M s (e # es) = s # states M (dispatch M s e) es"

fun from_family :: "input \<Rightarrow> cycle \<Rightarrow> bool" where
  "from_family i (d, ms, u) =
     (etype d = down (events i) \<and> list_all (\<lambda>m. etype m = move (events i)) ms
      \<and> etype u = up (events i))"

fun cycles_ok :: "input list \<Rightarrow> state \<Rightarrow> cycle list \<Rightarrow> bool" where
  "cycles_ok M s [] = True"
| "cycles_ok M s (c # cs) =
     (list_ex (\<lambda>i. get_flag (active s) (name i) \<and> from_family i c) M
      \<and> fst (removeDuplicates M s (fst c))
      \<and> cycles_ok M (last (states M s (cycle_events c))) cs)"

text \<open>The calls made through the wrapper of \<open>once.*\<close>, and the event a handler emits.\<close>

fun is_once_call :: "effect \<Rightarrow> bool" where
  "is_once_call (Call k c n d) = (k = Once)"
| "is_once_call ExitPointerLock = False"

fun handler_name :: "handler \<Rightarrow> tapname" where
  "handler_name OnDown = Down"
| "handler_name OnMove = Move"
| "handler_name OnUp = Up"

section \<open>Properties\<close>

subsection \<open>Auxiliary facts\<close>

lemma attached_eventMatrix:
  "attached (eventMatrix tst en) a =
     (if touch a then [(''touchstart'', OnDown), (''touchmove'', OnMove), (''touchend'', OnUp)] else []) @
     (if mouse a then [(''mousedown'', OnDown), (''mousemove'', OnMove), (''mouseup'', OnUp)] else []) @
     (if pointer a then [(''pointerdown'', OnDown), (''pointermove'', OnMove), (''pointerup'', OnUp)] else [])"
  by (simp add: attached_def eventMatrix_def)

lemma distinct_attached: "distinct (map fst (attached (eventMatrix tst en) a))"
  by (cases "touch a"; cases "mouse a"; cases "pointer a") (simp_all add: attached_eventMatrix)

lemma filter_key:
  "distinct (map fst ls) \<Longrightarrow> (t, h) \<in> set ls \<Longrightarrow> filter (\<lambda>(t', h'). t' = t) ls = [(t, h)]"
proof (induction ls)
  case Nil
  then show ?case by simp
next
  case (Cons a ls)
  obtain t' h' where a: "a = (t', h')" by (cases a)
  show ?case
  proof (cases "t' = t")
    case True
    with Cons.prems a have "h' = h" by (auto simp: image_iff)
    moreover from Cons.prems a True have "filter (\<lambda>(t', h'). t' = t) ls = []"
      by (auto simp: filter_empty_conv image_iff)
    ultimately show ?thesis using a True by simp
  next
    case False
    with Cons a show ?thesis by auto
  qed
qed

lemma filter_nokey:
  "t \<notin> fst ` set ls \<Longrightarrow> filter (\<lambda>(t', h'). t' = t) ls = []"
  by (auto simp: filter_empty_conv image_iff)

lemma dispatch_attached:
  assumes "distinct (map fst (elementListeners s))" and "(etype e, h) \<in> set (elementListeners s)"
  shows "dispatch M s e = run_handler M s h e"
  using assms by (simp add: dispatch_def filter_key)

lemma dispatch_unattached:
  assumes "etype e \<notin> fst ` set (elementListeners s)"
  shows "dispatch M s e = s"
  using assms by (simp add: dispatch_def filter_nokey)

lemma Tap_eventMatrix:
  "Tap (eventMatrix tst en) lock el =
     (fresh lock)\<lparr>domElement := (case el of None \<Rightarrow> Window | Some x \<Rightarrow> x),
       active := \<lparr>touch = tst Touch \<and> en Touch, mouse = tst Mouse \<and> en Mouse,
                  pointer = tst Pointer \<and> en Pointer\<rparr>,
       elementListeners := attached (eventMatrix tst en)
          \<lparr>touch = tst Touch \<and> en Touch, mouse = tst Mouse \<and> en Mouse,
           pointer = tst Pointer \<and> en Pointer\<rparr>\<rparr>"
  by (cases "tst Touch"; cases "en Touch"; cases "tst Mouse"; cases "en Mouse";
      cases "tst Pointer"; cases "en Pointer")
     (simp_all add: attached_def Tap_def tap_add_def fresh_def eventMatrix_def
        add_input_def addEventListener_def)

lemma wf_Tap: "wf (eventMatrix tst en) (Tap (eventMatrix tst en) lock el)"
  by (simp add: wf_def Tap_eventMatrix)

lemma tap_remove_eventMatrix:
  "tap_remove (eventMatrix tst en) s ty =
     (if \<not> get_flag (active s) ty then s
      else s\<lparr>elementListeners := attached (eventMatrix tst en) (set_flag (active s) ty False),
             active := set_flag (active s) ty False\<rparr>)" if "wf (eventMatrix tst en) s"
  using that
  by (cases ty; cases "touch (active s)"; cases "mouse (active s)"; cases "pointer (active s)")
     (simp_all add: wf_def attached_def tap_remove_def eventMatrix_def remove_input_def
        removeEventListener_def)

lemma removeDuplicates_eventMatrix:
  assumes "wf (eventMatrix tst en) s"
  shows "removeDuplicates (eventMatrix tst en) s e =
     (if etype e = ''touchstart'' then
        (if touch (active s) \<and> pointer (registered s)
         then (False, s\<lparr>registered := (registered s)\<lparr>touch := True\<rparr>,
                        elementListeners := attached (eventMatrix tst en) ((active s)\<lparr>touch := False\<rparr>),
                        active := (active s)\<lparr>touch := False\<rparr>\<rparr>)
         else (True, s\<lparr>registered := (registered s)\<lparr>touch := True\<rparr>\<rparr>))
      else if etype e = ''mousedown'' then
        (if mouse (active s) \<and> (pointer (registered s) \<or> touch (registered s))
         then (False, s\<lparr>registered := (registered s)\<lparr>mouse := True\<rparr>,
                        elementListeners := attached (eventMatrix tst en) ((active s)\<lparr>mouse := False\<rparr>),
                        active := (active s)\<lparr>mouse := False\<rparr>\<rparr>)
         else (True, s\<lparr>registered := (registered s)\<lparr>mouse := True\<rparr>\<rparr>))
      else if etype e = ''pointerdown'' then (True, s\<lparr>registered := (registered s)\<lparr>pointer := True\<rparr>\<rparr>)
      else (True, s))"
proof -
  have w: "wf (eventMatrix tst en) (s\<lparr>registered := r\<rparr>)" for r
    using assms by (simp add: wf_def)
  show ?thesis
  proof (cases "etype e = ''touchstart''")
    case True
    then show ?thesis
      by (cases "touch (active s)"; cases "pointer (registered s)")
         (simp_all add: removeDuplicates_def Let_def tap_remove_eventMatrix [OF w])
  next
    case nt: False
    show ?thesis
    proof (cases "etype e = ''mousedown''")
      case True
      then show ?thesis
        by (cases "mouse (active s)"; cases "pointer (registered s)"; cases "touch (registered s)")
           (simp_all add: removeDuplicates_def Let_def tap_remove_eventMatrix [OF w])
    next
      case False
      with nt show ?thesis
        by (simp add: removeDuplicates_def Let_def)
    qed
  qed
qed

lemma run_Nil [simp]: "run M s [] = s"
  by (simp add: run_def)

lemma run_Cons [simp]: "run M s (a # acts) = run M (step M s a) acts"
  by (simp add: run_def)

lemma run_append: "run M s (xs @ ys) = run M (run M s xs) ys"
  by (simp add: run_def)

lemma run_invariant:
  assumes "P s" and "\<And>s a. P s \<Longrightarrow> P (step M s a)"
  shows "P (run M s acts)"
  using assms(1)
proof (induction acts arbitrary: s)
  case Nil
  then show ?case by simp
next
  case (Cons a acts)
  then show ?case by (simp add: assms(2))
qed

lemma in_attached:
  "(t, h) \<in> set (attached (eventMatrix tst en) a) \<longleftrightarrow>
     touch a \<and> (t, h) \<in> {(''touchstart'', OnDown), (''touchmove'', OnMove), (''touchend'', OnUp)}
   \<or> mouse a \<and> (t, h) \<in> {(''mousedown'', OnDown), (''mousemove'', OnMove), (''mouseup'', OnUp)}
   \<or> pointer a \<and> (t, h) \<in> {(''pointerdown'', OnDown), (''pointermove'', OnMove), (''pointerup'', OnUp)}"
  by (cases "touch a"; cases "mouse a"; cases "pointer a") (simp_all add: attached_eventMatrix)

lemma dispatch_wf:
  assumes "wf (eventMatrix tst en) s" and "(etype e, h) \<in> set (elementListeners s)"
  shows "dispatch M s e = run_handler M s h e"
  using assms dispatch_attached [of s e h M] distinct_attached [of tst en "active s"]
  by (simp add: wf_def)

lemma dispatch_cases:
  assumes "wf (eventMatrix tst en) s"
  obtains (ignored) "dispatch M s e = s" and "\<forall>h. (etype e, h) \<notin> set (elementListeners s)"
  | (handled) h where "(etype e, h) \<in> set (elementListeners s)"
      and "dispatch M s e = run_handler M s h e"
proof (cases "\<exists>h. (etype e, h) \<in> set (elementListeners s)")
  case True
  then obtain h where "(etype e, h) \<in> set (elementListeners s)" ..
  with assms handled dispatch_wf show ?thesis by blast
next
  case False
  then have "etype e \<notin> fst ` set (elementListeners s)" by force
  with False ignored dispatch_unattached show ?thesis by blast
qed

lemma emit_fields [simp]:
  "domElement (emit s n d) = domElement s"
  "isDown (emit s n d) = isDown s"
  "isPaused (emit s n d) = isPaused s"
  "active (emit s n d) = active s"
  "registered (emit s n d) = registered s"
  "currentPosition (emit s n d) = currentPosition s"
  "lastPosition (emit s n d) = lastPosition s"
  "elementListeners (emit s n d) = elementListeners s"
  "documentListeners (emit s n d) = documentListeners s"
  "pointerLockElement (emit s n d) = pointerLockElement s"
  "settled (emit s n d) = settled s"
  "promises (emit s n d) = promises s"
  by (simp_all add: emit_def)

lemma set_position_fields [simp]:
  "emitter (set_position s p) = emitter s"
  "domElement (set_position s p) = domElement s"
  "isDown (set_position s p) = isDown s"
  "isPaused (set_position s p) = isPaused s"
  "active (set_position s p) = active s"
  "registered (set_position s p) = registered s"
  "elementListeners (set_position s p) = elementListeners s"
  "documentListeners (set_position s p) = documentListeners s"
  "pointerLockElement (set_position s p) = pointerLockElement s"
  "settled (set_position s p) = settled s"
  "promises (set_position s p) = promises s"
  "log (set_position s p) = log s"
  by (simp_all add: set_position_def)

lemma calcPosition_snd: "snd (calcPosition s e) = set_position s (fst (calcPosition s e))"
  by (simp add: calcPosition_def Let_def)

lemma calcPosition_fst_isDown [simp]:
  "fst (calcPosition (s\<lparr>isDown := b\<rparr>) e) = fst (calcPosition s e)"
  by (simp add: calcPosition_def Let_def isLocked_def split: option.splits list.splits)

lemma onMove_eq:
  "onMove s e = emit (set_position s (fst (calcPosition s e))) Move
     \<lparr>position = fst (calcPosition s e), event = e, dragging = Some (isDown s)\<rparr>"
  by (cases "calcPosition s e") (use calcPosition_snd [of s e] in \<open>simp add: onMove_def\<close>)

lemma onUp_eq:
  "onUp s e = emit (set_position (s\<lparr>isDown := False\<rparr>) (fst (calcPosition s e))) Up
     \<lparr>position = fst (calcPosition s e), event = e, dragging = None\<rparr>"
  by (cases "calcPosition (s\<lparr>isDown := False\<rparr>) e")
     (use calcPosition_snd [of "s\<lparr>isDown := False\<rparr>" e] calcPosition_fst_isDown [where s = s and b = False and e = e]
       in \<open>simp add: onUp_def del: calcPosition_fst_isDown\<close>)

lemma onDown_eq:
  "onDown M s e =
     (if fst (removeDuplicates M s e)
      then emit (set_position ((snd (removeDuplicates M s e))\<lparr>isDown := True\<rparr>)
                   (fst (calcPosition (snd (removeDuplicates M s e)) e))) Down
             \<lparr>position = fst (calcPosition (snd (removeDuplicates M s e)) e), event = e,
              dragging = None\<rparr>
      else snd (removeDuplicates M s e))"
proof (cases "removeDuplicates M s e")
  case (Pair proceed s1)
  show ?thesis
    by (cases "calcPosition (s1\<lparr>isDown := True\<rparr>) e")
       (use Pair calcPosition_snd [of "s1\<lparr>isDown := True\<rparr>" e]
          calcPosition_fst_isDown [where s = s1 and b = True and e = e]
        in \<open>simp add: onDown_def del: calcPosition_fst_isDown\<close>)
qed

lemma advances_refl [simp]: "advances s s"
  by (simp add: advances_def flags_le_def)

lemma advances_trans: "advances s t \<Longrightarrow> advances t u \<Longrightarrow> advances s u"
  unfolding advances_def flags_le_def by blast

lemma removeDuplicates_cases:
  assumes "wf (eventMatrix tst en) s"
  obtains (touch_dup) "etype e = ''touchstart''" "touch (active s)" "pointer (registered s)"
      "removeDuplicates (eventMatrix tst en) s e =
         (False, s\<lparr>registered := (registered s)\<lparr>touch := True\<rparr>,
                   elementListeners := attached (eventMatrix tst en) ((active s)\<lparr>touch := False\<rparr>),
                   active := (active s)\<lparr>touch := False\<rparr>\<rparr>)"
  | (mouse_dup) "etype e = ''mousedown''" "mouse (active s)" "pointer (registered s) \<or> touch (registered s)"
      "removeDuplicates (eventMatrix tst en) s e =
         (False, s\<lparr>registered := (registered s)\<lparr>mouse := True\<rparr>,
                   elementListeners := attached (eventMatrix tst en) ((active s)\<lparr>mouse := False\<rparr>),
                   active := (active s)\<lparr>mouse := False\<rparr>\<rparr>)"
  | (touch_ok) "etype e = ''touchstart''" "\<not> (touch (active s) \<and> pointer (registered s))"
      "removeDuplicates (eventMatrix tst en) s e =
         (True, s\<lparr>registered := (registered s)\<lparr>touch := True\<rparr>\<rparr>)"
  | (mouse_ok) "etype e = ''mousedown''"
      "\<not> (mouse (active s) \<and> (pointer (registered s) \<or> touch (registered s)))"
      "removeDuplicates (eventMatrix tst en) s e =
         (True, s\<lparr>registered := (registered s)\<lparr>mouse := True\<rparr>\<rparr>)"
  | (pointer_ok) "etype e = ''pointerdown''"
      "removeDuplicates (eventMatrix tst en) s e =
         (True, s\<lparr>registered := (registered s)\<lparr>pointer := True\<rparr>\<rparr>)"
  | (other) "etype e \<noteq> ''touchstart''" "etype e \<noteq> ''mousedown''" "etype e \<noteq> ''pointerdown''"
      "removeDuplicates (eventMatrix tst en) s e = (True, s)"
proof -
  note rd = removeDuplicates_eventMatrix [OF assms, of e]
  show ?thesis
  proof (cases "etype e = ''touchstart''")
    case ts: True
    show ?thesis
    proof (cases "touch (active s)")
      case ta: True
      show ?thesis
      proof (cases "pointer (registered s)")
        case True
        show ?thesis
          by (rule touch_dup [OF ts ta True]) (simp add: rd ts ta True)
      next
        case False
        show ?thesis
          by (rule touch_ok [OF ts]) (simp_all add: rd ts ta False)
      qed
    next
      case False
      show ?thesis
        by (rule touch_ok [OF ts]) (simp_all add: rd ts False)
    qed
  next
    case nts: False
    show ?thesis
    proof (cases "etype e = ''mousedown''")
      case md: True
      show ?thesis
      proof (cases "mouse (active s)")
        case ma: True
        show ?thesis
        proof (cases "pointer (registered s) \<or> touch (registered s)")
          case True
          show ?thesis
            by (rule mouse_dup [OF md ma True]) (use True in \<open>simp add: rd md ma\<close>)
        next
          case False
          show ?thesis
            by (rule mouse_ok [OF md]) (use False in \<open>simp_all add: rd md ma\<close>)
        qed
      next
        case False
        show ?thesis
          by (rule mouse_ok [OF md]) (simp_all add: rd md False)
      qed
    next
      case nmd: False
      show ?thesis
      proof (cases "etype e = ''pointerdown''")
        case True
        show ?thesis
          by (rule pointer_ok [OF True]) (simp add: rd True)
      next
        case False
        show ?thesis
          by (rule other [OF nts nmd False]) (simp add: rd nts nmd False)
      qed
    qed
  qed
qed

lemma removeDuplicates_keeps:
  assumes "wf (eventMatrix tst en) s"
  shows "wf (eventMatrix tst en) (snd (removeDuplicates (eventMatrix tst en) s e))"
    and "advances s (snd (removeDuplicates (eventMatrix tst en) s e))"
  using assms
  by (cases rule: removeDuplicates_cases [OF assms, of e];
      simp add: wf_def advances_def flags_le_def)+

lemma onDown_keeps:
  assumes "wf (eventMatrix tst en) s"
  shows "wf (eventMatrix tst en) (onDown (eventMatrix tst en) s e)"
    and "advances s (onDown (eventMatrix tst en) s e)"
  using removeDuplicates_keeps [OF assms, of e]
  by (simp_all add: onDown_eq wf_def advances_def)

lemma run_handler_keeps:
  assumes "wf (eventMatrix tst en) s"
  shows "wf (eventMatrix tst en) (run_handler (eventMatrix tst en) s h e)"
    and "advances s (run_handler (eventMatrix tst en) s h e)"
  using onDown_keeps [OF assms, of e] assms
  by (cases h; simp add: run_handler_def onMove_eq onUp_eq wf_def advances_def flags_le_def)+

lemma dispatch_keeps:
  assumes "wf (eventMatrix tst en) s"
  shows "wf (eventMatrix tst en) (dispatch (eventMatrix tst en) s e)"
    and "advances s (dispatch (eventMatrix tst en) s e)"
  using assms run_handler_keeps [OF assms]
  by (cases rule: dispatch_cases [OF assms, of "eventMatrix tst en" e]; simp)+

lemma step_keeps:
  assumes "wf (eventMatrix tst en) s"
  shows "wf (eventMatrix tst en) (step (eventMatrix tst en) s a)"
    and "advances s (step (eventMatrix tst en) s a)"
proof -
  have "wf (eventMatrix tst en) (step (eventMatrix tst en) s a)
      \<and> advances s (step (eventMatrix tst en) s a)"
  proof (cases a)
    case (Dispatch e)
    then show ?thesis using dispatch_keeps [OF assms] by simp
  next
    case (Subscribe k n c)
    then show ?thesis using assms
      by (cases k) (simp_all add: tap_on_def tap_once_def wf_def advances_def flags_le_def)
  qed (use assms in \<open>simp_all add: pause_def resume_def pointerLock_request_def
         pointerLock_exit_def lockChange_def tap_once_def Let_def wf_def advances_def flags_le_def\<close>)
  then show "wf (eventMatrix tst en) (step (eventMatrix tst en) s a)"
    and "advances s (step (eventMatrix tst en) s a)" by simp_all
qed

lemma run_keeps:
  assumes "wf (eventMatrix tst en) s"
  shows "wf (eventMatrix tst en) (run (eventMatrix tst en) s acts)"
    and "advances s (run (eventMatrix tst en) s acts)"
proof -
  have "wf (eventMatrix tst en) (run (eventMatrix tst en) s acts)
      \<and> advances s (run (eventMatrix tst en) s acts)"
  proof (rule run_invariant [where P = "\<lambda>t. wf (eventMatrix tst en) t \<and> advances s t"])
    show "wf (eventMatrix tst en) s \<and> advances s s"
      using assms by simp
  next
    fix t a
    assume t: "wf (eventMatrix tst en) t \<and> advances s t"
    then have "wf (eventMatrix tst en) (step (eventMatrix tst en) t a)"
      and "advances t (step (eventMatrix tst en) t a)"
      by (simp_all add: step_keeps)
    with t show "wf (eventMatrix tst en) (step (eventMatrix tst en) t a)
        \<and> advances s (step (eventMatrix tst en) t a)"
      using advances_trans by blast
  qed
  then show "wf (eventMatrix tst en) (run (eventMatrix tst en) s acts)"
    and "advances s (run (eventMatrix tst en) s acts)" by simp_all
qed

lemma wf_reachable:
  "wf (eventMatrix tst en) (run (eventMatrix tst en) (Tap (eventMatrix tst en) lock el) acts)"
  by (rule run_keeps(1) [OF wf_Tap])

subsection \<open>The position setter\<close>

text \<open>
  Claim C8. A position update with the coordinate the instance already holds (both
  \<open>x\<close> and \<open>y\<close> equal) leaves the whole state, and so \<open>currentPosition\<close> and
  \<open>lastPosition\<close>, as it was. An update with a different coordinate makes
  \<open>lastPosition\<close> the previous \<open>currentPosition\<close> and \<open>currentPosition\<close> the new
  coordinate, and changes nothing else.
\<close>

theorem position_update:
  "(p = currentPosition s \<longrightarrow> set_position s p = s) \<and>
   (p \<noteq> currentPosition s \<longrightarrow>
      set_position s p = s\<lparr>lastPosition := currentPosition s, currentPosition := p\<rparr>)"
  by (simp add: set_position_def prod_eq_iff)

theorem position_update_witness:
  "set_position (fresh None) (Some (- 1), Some (- 1)) = fresh None \<and>
   lastPosition (set_position (fresh None) (Some 3, Some 4)) = (Some (- 1), Some (- 1)) \<and>
   currentPosition (set_position (fresh None) (Some 3, Some 4)) = (Some 3, Some 4)"
  using position_update [of "(Some (- 1), Some (- 1))" "fresh None"]
    position_update [of "(Some 3, Some 4)" "fresh None"]
  by (simp add: fresh_def)

subsection \<open>Duplicate suppression\<close>

lemma dispatch_down:
  assumes "wf (eventMatrix tst en) s" and "(etype e, OnDown) \<in> set (elementListeners s)"
  shows "dispatch (eventMatrix tst en) s e = onDown (eventMatrix tst en) s e"
  using dispatch_wf [OF assms] by (simp add: run_handler_def)

lemma attached_touchstart:
  assumes "wf (eventMatrix tst en) s" and "touch (active s)"
  shows "(''touchstart'', OnDown) \<in> set (elementListeners s)"
  using assms by (simp add: wf_def in_attached)

lemma attached_mousedown:
  assumes "wf (eventMatrix tst en) s" and "mouse (active s)"
  shows "(''mousedown'', OnDown) \<in> set (elementListeners s)"
  using assms by (simp add: wf_def in_attached)

lemma onDown_registers:
  assumes "wf (eventMatrix tst en) s"
  shows "etype e = ''pointerdown'' \<Longrightarrow> pointer (registered (onDown (eventMatrix tst en) s e))"
    and "etype e = ''touchstart'' \<Longrightarrow> touch (registered (onDown (eventMatrix tst en) s e))"
    and "etype e = ''mousedown'' \<Longrightarrow> mouse (registered (onDown (eventMatrix tst en) s e))"
  by (cases rule: removeDuplicates_cases [OF assms, of e]; simp add: onDown_eq)+

lemma onDown_touch_dup:
  assumes "wf (eventMatrix tst en) s" and "etype e = ''touchstart''"
    and "touch (active s)" and "pointer (registered s)"
  shows "onDown (eventMatrix tst en) s e =
     s\<lparr>registered := (registered s)\<lparr>touch := True\<rparr>,
       elementListeners := attached (eventMatrix tst en) ((active s)\<lparr>touch := False\<rparr>),
       active := (active s)\<lparr>touch := False\<rparr>\<rparr>"
  using assms(2-4) by (cases rule: removeDuplicates_cases [OF assms(1), of e]; simp add: onDown_eq)

lemma onDown_mouse_dup:
  assumes "wf (eventMatrix tst en) s" and "etype e = ''mousedown''"
    and "mouse (active s)" and "pointer (registered s) \<or> touch (registered s)"
  shows "onDown (eventMatrix tst en) s e =
     s\<lparr>registered := (registered s)\<lparr>mouse := True\<rparr>,
       elementListeners := attached (eventMatrix tst en) ((active s)\<lparr>mouse := False\<rparr>),
       active := (active s)\<lparr>mouse := False\<rparr>\<rparr>"
  using assms(2-4) by (cases rule: removeDuplicates_cases [OF assms(1), of e]; simp add: onDown_eq)

lemma published_same [simp]: "log s' = log s \<Longrightarrow> published s s' = []"
  by (simp add: published_def)

lemma registered_later:
  assumes "wf (eventMatrix tst en) s"
  shows "pointer (registered s) \<Longrightarrow> pointer (registered (run (eventMatrix tst en) s acts))"
    and "touch (registered s) \<Longrightarrow> touch (registered (run (eventMatrix tst en) s acts))"
    and "mouse (registered s) \<Longrightarrow> mouse (registered (run (eventMatrix tst en) s acts))"
  using run_keeps(2) [OF assms, of acts] by (simp_all add: advances_def flags_le_def)

lemma inactive_later:
  assumes "wf (eventMatrix tst en) s"
  shows "\<not> touch (active s) \<Longrightarrow> \<not> touch (active (run (eventMatrix tst en) s acts))"
    and "\<not> mouse (active s) \<Longrightarrow> \<not> mouse (active (run (eventMatrix tst en) s acts))"
  using run_keeps(2) [OF assms, of acts] by (simp_all add: advances_def flags_le_def)

lemma Tap_all_fields:
  "active (Tap (eventMatrix (\<lambda>_. True) (\<lambda>_. True)) lock el) = \<lparr>touch = True, mouse = True, pointer = True\<rparr>"
  "registered (Tap (eventMatrix (\<lambda>_. True) (\<lambda>_. True)) lock el) = \<lparr>touch = False, mouse = False, pointer = False\<rparr>"
  "elementListeners (Tap (eventMatrix (\<lambda>_. True) (\<lambda>_. True)) lock el) =
     [(''touchstart'', OnDown), (''touchmove'', OnMove), (''touchend'', OnUp),
      (''mousedown'', OnDown), (''mousemove'', OnMove), (''mouseup'', OnUp),
      (''pointerdown'', OnDown), (''pointermove'', OnMove), (''pointerup'', OnUp)]"
  "isDown (Tap (eventMatrix (\<lambda>_. True) (\<lambda>_. True)) lock el) = False"
  "isPaused (Tap (eventMatrix (\<lambda>_. True) (\<lambda>_. True)) lock el) = False"
  "emitter (Tap (eventMatrix (\<lambda>_. True) (\<lambda>_. True)) lock el) = []"
  "log (Tap (eventMatrix (\<lambda>_. True) (\<lambda>_. True)) lock el) = []"
  "pointerLockElement (Tap (eventMatrix (\<lambda>_. True) (\<lambda>_. True)) lock el) = lock"
  "currentPosition (Tap (eventMatrix (\<lambda>_. True) (\<lambda>_. True)) lock el) = (Some (- 1), Some (- 1))"
  "lastPosition (Tap (eventMatrix (\<lambda>_. True) (\<lambda>_. True)) lock el) = (Some (- 1), Some (- 1))"
  "domElement (Tap (eventMatrix (\<lambda>_. True) (\<lambda>_. True)) lock el) = (case el of None \<Rightarrow> Window | Some x \<Rightarrow> x)"
  by (simp_all add: Tap_eventMatrix attached_eventMatrix fresh_def)

lemma removeDuplicates_discards:
  assumes "wf (eventMatrix tst en) s"
  shows "\<not> fst (removeDuplicates (eventMatrix tst en) s e) \<longleftrightarrow>
     etype e = ''touchstart'' \<and> touch (active s) \<and> pointer (registered s)
   \<or> etype e = ''mousedown'' \<and> mouse (active s) \<and> (pointer (registered s) \<or> touch (registered s))"
  by (cases rule: removeDuplicates_cases [OF assms, of e]) simp_all

lemma onDown_proceeds:
  assumes "wf (eventMatrix tst en) s" and "fst (removeDuplicates (eventMatrix tst en) s e)"
  shows "active (onDown (eventMatrix tst en) s e) = active s"
    and "elementListeners (onDown (eventMatrix tst en) s e) = elementListeners s"
    and "isDown (onDown (eventMatrix tst en) s e)"
  using assms(2) by (cases rule: removeDuplicates_cases [OF assms(1), of e]; simp add: onDown_eq)+

text \<open>
  Claim C1. In a history since construction in which a \<open>pointerdown\<close> was ingested
  (the element held the down listener for it when it was dispatched), a
  \<open>touchstart\<close> dispatched while the touch family is still active detaches the
  three listeners of the touch family and clears its active flag; nothing is
  published for it: no callback is called and no subscription is used up.
\<close>

theorem touchstart_after_pointerdown:
  assumes M: "M = eventMatrix tst en"
    and p: "etype p = ''pointerdown''"
    and ingested: "(etype p, OnDown) \<in> set (elementListeners (run M (Tap M lock el) pre))"
    and s: "s = run M (Tap M lock el) (pre @ Dispatch p # post)"
    and act: "touch (active s)"
    and e: "etype e = ''touchstart''"
  shows "\<not> touch (active (dispatch M s e)) \<and>
    elementListeners (dispatch M s e) = attached M ((active s)\<lparr>touch := False\<rparr>) \<and>
    (''touchstart'', OnDown) \<notin> set (elementListeners (dispatch M s e)) \<and>
    (''touchmove'', OnMove) \<notin> set (elementListeners (dispatch M s e)) \<and>
    (''touchend'', OnUp) \<notin> set (elementListeners (dispatch M s e)) \<and>
    published s (dispatch M s e) = [] \<and>
    emitter (dispatch M s e) = emitter s"
proof -
  let ?s1 = "run M (Tap M lock el) pre"
  have w1: "wf (eventMatrix tst en) ?s1"
    unfolding M by (rule wf_reachable)
  have "dispatch M ?s1 p = onDown M ?s1 p"
    using dispatch_down [OF w1] ingested M by simp
  then have r2: "pointer (registered (dispatch M ?s1 p))"
    using onDown_registers(1) [OF w1 p] M by simp
  have w2: "wf (eventMatrix tst en) (dispatch M ?s1 p)"
    using dispatch_keeps(1) [OF w1] M by simp
  have s': "s = run M (dispatch M ?s1 p) post"
    by (simp add: s run_append)
  have reg: "pointer (registered s)"
    using registered_later(1) [OF w2 r2] s' M by simp
  have w: "wf (eventMatrix tst en) s"
    unfolding s M by (rule wf_reachable)
  have "dispatch M s e = onDown M s e"
    using dispatch_down [OF w] attached_touchstart [OF w act] e M by simp
  then have eq: "dispatch M s e =
     s\<lparr>registered := (registered s)\<lparr>touch := True\<rparr>,
       elementListeners := attached M ((active s)\<lparr>touch := False\<rparr>),
       active := (active s)\<lparr>touch := False\<rparr>\<rparr>"
    using onDown_touch_dup [OF w e act reg] M by simp
  show ?thesis
    unfolding M by (simp add: eq [unfolded M] in_attached)
qed

theorem touchstart_after_pointerdown_witness:
  "touch (active (run (eventMatrix (\<lambda>_. True) (\<lambda>_. True))
       (Tap (eventMatrix (\<lambda>_. True) (\<lambda>_. True)) None None)
       ([] @ Dispatch \<lparr>etype = ''pointerdown'', touches = None, clientX = Some 10, clientY = Some 20,
                          movementX = Some 0, movementY = Some 0\<rparr> # []))) \<and>
   \<not> touch (active (dispatch (eventMatrix (\<lambda>_. True) (\<lambda>_. True))
       (run (eventMatrix (\<lambda>_. True) (\<lambda>_. True))
         (Tap (eventMatrix (\<lambda>_. True) (\<lambda>_. True)) None None)
         ([] @ Dispatch \<lparr>etype = ''pointerdown'', touches = None, clientX = Some 10, clientY = Some 20,
                          movementX = Some 0, movementY = Some 0\<rparr> # []))
       \<lparr>etype = ''touchstart'', touches = Some [\<lparr>pageX = Some 10, pageY = Some 20\<rparr>],
         clientX = None, clientY = None, movementX = None, movementY = None\<rparr>))"
  (is "touch (active (run ?M ?T ([] @ Dispatch ?p # []))) \<and> \<not> touch (active (dispatch ?M ?s ?e))")
proof -
  have w: "wf ?M ?T" by (rule wf_Tap)
  have ing: "(etype ?p, OnDown) \<in> set (elementListeners (run ?M ?T []))"
    by (simp add: Tap_all_fields)
  then have "dispatch ?M ?T ?p = onDown ?M ?T ?p"
    using dispatch_down [OF w] by simp
  moreover have "fst (removeDuplicates ?M ?T ?p)"
    using removeDuplicates_discards [OF w, of ?p] by simp
  ultimately have act: "touch (active ?s)"
    using onDown_proceeds(1) [OF w] by (simp add: Tap_all_fields)
  from touchstart_after_pointerdown [OF refl _ ing refl act] act show ?thesis
    by simp
qed

text \<open>
  Claim C2. In a history since construction in which a \<open>pointerdown\<close> or a
  \<open>touchstart\<close> was ingested, a \<open>mousedown\<close> dispatched while the mouse family is
  still active detaches the three listeners of the mouse family and clears its
  active flag; nothing is published for it.
\<close>

theorem mousedown_after_pointer_or_touch:
  assumes M: "M = eventMatrix tst en"
    and p: "etype p = ''pointerdown'' \<or> etype p = ''touchstart''"
    and ingested: "(etype p, OnDown) \<in> set (elementListeners (run M (Tap M lock el) pre))"
    and s: "s = run M (Tap M lock el) (pre @ Dispatch p # post)"
    and act: "mouse (active s)"
    and e: "etype e = ''mousedown''"
  shows "\<not> mouse (active (dispatch M s e)) \<and>
    elementListeners (dispatch M s e) = attached M ((active s)\<lparr>mouse := False\<rparr>) \<and>
    (''mousedown'', OnDown) \<notin> set (elementListeners (dispatch M s e)) \<and>
    (''mousemove'', OnMove) \<notin> set (elementListeners (dispatch M s e)) \<and>
    (''mouseup'', OnUp) \<notin> set (elementListeners (dispatch M s e)) \<and>
    published s (dispatch M s e) = [] \<and>
    emitter (dispatch M s e) = emitter s"
proof -
  let ?s1 = "run M (Tap M lock el) pre"
  have w1: "wf (eventMatrix tst en) ?s1"
    unfolding M by (rule wf_reachable)
  have d1: "dispatch M ?s1 p = onDown M ?s1 p"
    using dispatch_down [OF w1] ingested M by simp
  have r2: "pointer (registered (dispatch M ?s1 p)) \<or> touch (registered (dispatch M ?s1 p))"
    using p onDown_registers(1,2) [OF w1, of p] d1 M by auto
  have w2: "wf (eventMatrix tst en) (dispatch M ?s1 p)"
    using dispatch_keeps(1) [OF w1] M by simp
  have s': "s = run M (dispatch M ?s1 p) post"
    by (simp add: s run_append)
  have reg: "pointer (registered s) \<or> touch (registered s)"
    using registered_later(1,2) [OF w2, of post] r2 s' M by auto
  have w: "wf (eventMatrix tst en) s"
    unfolding s M by (rule wf_reachable)
  have "dispatch M s e = onDown M s e"
    using dispatch_down [OF w] attached_mousedown [OF w act] e M by simp
  then have eq: "dispatch M s e =
     s\<lparr>registered := (registered s)\<lparr>mouse := True\<rparr>,
       elementListeners := attached M ((active s)\<lparr>mouse := False\<rparr>),
       active := (active s)\<lparr>mouse := False\<rparr>\<rparr>"
    using onDown_mouse_dup [OF w e act reg] M by simp
  show ?thesis
    unfolding M by (simp add: eq [unfolded M] in_attached)
qed

theorem mousedown_after_pointer_or_touch_witness:
  "mouse (active (run (eventMatrix (\<lambda>_. True) (\<lambda>_. True))
       (Tap (eventMatrix (\<lambda>_. True) (\<lambda>_. True)) None None)
       ([] @ Dispatch \<lparr>etype = ''touchstart'', touches = Some [\<lparr>pageX = Some 10, pageY = Some 20\<rparr>],
                          clientX = None, clientY = None, movementX = None, movementY = None\<rparr> # []))) \<and>
   \<not> mouse (active (dispatch (eventMatrix (\<lambda>_. True) (\<lambda>_. True))
       (run (eventMatrix (\<lambda>_. True) (\<lambda>_. True))
         (Tap (eventMatrix (\<lambda>_. True) (\<lambda>_. True)) None None)
         ([] @ Dispatch \<lparr>etype = ''touchstart'', touches = Some [\<lparr>pageX = Some 10, pageY = Some 20\<rparr>],
                          clientX = None, clientY = None, movementX = None, movementY = None\<rparr> # []))
       \<lparr>etype = ''mousedown'', touches = None, clientX = Some 10, clientY = Some 20,
         movementX = Some 0, movementY = Some 0\<rparr>))"
  (is "mouse (active (run ?M ?T ([] @ Dispatch ?p # []))) \<and> \<not> mouse (active (dispatch ?M ?s ?e))")
proof -
  have w: "wf ?M ?T" by (rule wf_Tap)
  have ing: "(etype ?p, OnDown) \<in> set (elementListeners (run ?M ?T []))"
    by (simp add: Tap_all_fields)
  then have "dispatch ?M ?T ?p = onDown ?M ?T ?p"
    using dispatch_down [OF w] by simp
  moreover have "fst (removeDuplicates ?M ?T ?p)"
    using removeDuplicates_discards [OF w, of ?p] by (simp add: Tap_all_fields)
  ultimately have act: "mouse (active ?s)"
    using onDown_proceeds(1) [OF w] by (simp add: Tap_all_fields)
  from mousedown_after_pointer_or_touch [OF refl _ ing refl act] act show ?thesis
    by simp
qed

text \<open>
  Claim C10. A down event that the instance ingests and duplicate suppression
  discards is a \<open>touchstart\<close> or a \<open>mousedown\<close>, and the state after it is the state
  before it with the registered flag of its family set, the active flag of its
  family cleared and the listeners of its family detached: \<open>isDown\<close>,
  \<open>currentPosition\<close> and \<open>lastPosition\<close> are as before.
\<close>

theorem discarded_down_frame:
  assumes M: "M = eventMatrix tst en"
    and s: "s = run M (Tap M lock el) acts"
    and ingested: "(etype e, OnDown) \<in> set (elementListeners s)"
    and discarded: "\<not> fst (removeDuplicates M s e)"
  shows "(etype e = ''touchstart'' \<and>
          dispatch M s e =
            s\<lparr>registered := (registered s)\<lparr>touch := True\<rparr>,
              elementListeners := attached M ((active s)\<lparr>touch := False\<rparr>),
              active := (active s)\<lparr>touch := False\<rparr>\<rparr>
        \<or> etype e = ''mousedown'' \<and>
          dispatch M s e =
            s\<lparr>registered := (registered s)\<lparr>mouse := True\<rparr>,
              elementListeners := attached M ((active s)\<lparr>mouse := False\<rparr>),
              active := (active s)\<lparr>mouse := False\<rparr>\<rparr>) \<and>
     isDown (dispatch M s e) = isDown s \<and>
     currentPosition (dispatch M s e) = currentPosition s \<and>
     lastPosition (dispatch M s e) = lastPosition s \<and>
     isPaused (dispatch M s e) = isPaused s \<and>
     emitter (dispatch M s e) = emitter s \<and>
     log (dispatch M s e) = log s"
proof -
  have w: "wf (eventMatrix tst en) s"
    unfolding s M by (rule wf_reachable)
  have d: "dispatch M s e = onDown M s e"
    using dispatch_down [OF w ingested] M by simp
  from discarded [unfolded M removeDuplicates_discards [OF w]]
  consider (t) "etype e = ''touchstart''" "touch (active s)" "pointer (registered s)"
    | (m) "etype e = ''mousedown''" "mouse (active s)" "pointer (registered s) \<or> touch (registered s)"
    by blast
  then show ?thesis
  proof cases
    case t
    show ?thesis
      unfolding d unfolding M by (simp add: onDown_touch_dup [OF w t] t(1))
  next
    case m
    show ?thesis
      unfolding d unfolding M by (simp add: onDown_mouse_dup [OF w m] m(1))
  qed
qed

theorem discarded_down_frame_witness:
  "\<not> fst (removeDuplicates (eventMatrix (\<lambda>_. True) (\<lambda>_. True))
       (run (eventMatrix (\<lambda>_. True) (\<lambda>_. True))
         (Tap (eventMatrix (\<lambda>_. True) (\<lambda>_. True)) None None)
         [Dispatch \<lparr>etype = ''pointerdown'', touches = None, clientX = Some 10, clientY = Some 20,
                     movementX = Some 0, movementY = Some 0\<rparr>])
       \<lparr>etype = ''touchstart'', touches = Some [\<lparr>pageX = Some 30, pageY = Some 40\<rparr>],
         clientX = None, clientY = None, movementX = None, movementY = None\<rparr>) \<and>
   currentPosition (dispatch (eventMatrix (\<lambda>_. True) (\<lambda>_. True))
       (run (eventMatrix (\<lambda>_. True) (\<lambda>_. True))
         (Tap (eventMatrix (\<lambda>_. True) (\<lambda>_. True)) None None)
         [Dispatch \<lparr>etype = ''pointerdown'', touches = None, clientX = Some 10, clientY = Some 20,
                     movementX = Some 0, movementY = Some 0\<rparr>])
       \<lparr>etype = ''touchstart'', touches = Some [\<lparr>pageX = Some 30, pageY = Some 40\<rparr>],
         clientX = None, clientY = None, movementX = None, movementY = None\<rparr>) =
   currentPosition (run (eventMatrix (\<lambda>_. True) (\<lambda>_. True))
         (Tap (eventMatrix (\<lambda>_. True) (\<lambda>_. True)) None None)
         [Dispatch \<lparr>etype = ''pointerdown'', touches = None, clientX = Some 10, clientY = Some 20,
                     movementX = Some 0, movementY = Some 0\<rparr>])"
  (is "\<not> fst (removeDuplicates ?M (run ?M ?T [Dispatch ?p]) ?e) \<and> _")
proof -
  let ?s = "run ?M ?T [Dispatch ?p]"
  have w0: "wf ?M ?T" by (rule wf_Tap)
  have w: "wf ?M ?s" by (rule wf_reachable)
  have d: "?s = onDown ?M ?T ?p"
    using dispatch_down [OF w0, of ?p] by (simp add: Tap_all_fields)
  have ok: "fst (removeDuplicates ?M ?T ?p)"
    using removeDuplicates_discards [OF w0, of ?p] by simp
  have a: "active ?s = \<lparr>touch = True, mouse = True, pointer = True\<rparr>"
    unfolding d using onDown_proceeds(1) [OF w0 ok] by (simp add: Tap_all_fields)
  have r: "pointer (registered ?s)"
    unfolding d using onDown_registers(1) [OF w0, of ?p] by simp
  have ing: "(etype ?e, OnDown) \<in> set (elementListeners ?s)"
    using attached_touchstart [OF w] a by simp
  have disc: "\<not> fst (removeDuplicates ?M ?s ?e)"
    using removeDuplicates_discards [OF w, of ?e] a r by simp
  from discarded_down_frame [OF refl refl ing disc] disc show ?thesis
    by simp
qed

text \<open>
  Claim C3, as stated, fails: right after the first \<open>pointerdown\<close> the pointer
  family is registered while the touch and the mouse family both still have
  their listeners. A family is detached only when its own next down event
  arrives.
\<close>

theorem both_active_after_pointerdown:
  "pointer (registered (run (eventMatrix (\<lambda>_. True) (\<lambda>_. True))
       (Tap (eventMatrix (\<lambda>_. True) (\<lambda>_. True)) None None)
       [Dispatch \<lparr>etype = ''pointerdown'', touches = None, clientX = Some 10, clientY = Some 20,
                   movementX = Some 0, movementY = Some 0\<rparr>])) \<and>
   touch (active (run (eventMatrix (\<lambda>_. True) (\<lambda>_. True))
       (Tap (eventMatrix (\<lambda>_. True) (\<lambda>_. True)) None None)
       [Dispatch \<lparr>etype = ''pointerdown'', touches = None, clientX = Some 10, clientY = Some 20,
                   movementX = Some 0, movementY = Some 0\<rparr>])) \<and>
   mouse (active (run (eventMatrix (\<lambda>_. True) (\<lambda>_. True))
       (Tap (eventMatrix (\<lambda>_. True) (\<lambda>_. True)) None None)
       [Dispatch \<lparr>etype = ''pointerdown'', touches = None, clientX = Some 10, clientY = Some 20,
                   movementX = Some 0, movementY = Some 0\<rparr>]))"
  (is "pointer (registered (run ?M ?T [Dispatch ?p])) \<and> _")
proof -
  let ?s = "run ?M ?T [Dispatch ?p]"
  have w0: "wf ?M ?T" by (rule wf_Tap)
  have d: "?s = onDown ?M ?T ?p"
    using dispatch_down [OF w0, of ?p] by (simp add: Tap_all_fields)
  have ok: "fst (removeDuplicates ?M ?T ?p)"
    using removeDuplicates_discards [OF w0, of ?p] by simp
  have a: "active ?s = \<lparr>touch = True, mouse = True, pointer = True\<rparr>"
    unfolding d using onDown_proceeds(1) [OF w0 ok] by (simp add: Tap_all_fields)
  have r: "pointer (registered ?s)"
    unfolding d using onDown_registers(1) [OF w0, of ?p] by simp
  show ?thesis using a r by simp
qed

text \<open>
  Claim C3, amended. In every state reachable after construction, once the pointer
  family is registered and a \<open>touchstart\<close> or a \<open>mousedown\<close> has been dispatched
  after that, the family of that event is inactive, so at most one of the touch
  and the mouse family is active.
\<close>

theorem at_most_one_after_duplicate:
  assumes M: "M = eventMatrix tst en"
    and s1: "s1 = run M (Tap M lock el) pre"
    and reg: "pointer (registered s1)"
    and d: "etype d = ''touchstart'' \<or> etype d = ''mousedown''"
    and s: "s = run M (dispatch M s1 d) post"
  shows "(etype d = ''touchstart'' \<longrightarrow> \<not> touch (active s)) \<and>
         (etype d = ''mousedown'' \<longrightarrow> \<not> mouse (active s)) \<and>
         \<not> (touch (active s) \<and> mouse (active s))"
proof -
  have w1: "wf (eventMatrix tst en) s1"
    unfolding s1 M by (rule wf_reachable)
  have w2: "wf (eventMatrix tst en) (dispatch M s1 d)"
    using dispatch_keeps(1) [OF w1] M by simp
  have adv: "advances s1 (dispatch M s1 d)"
    using dispatch_keeps(2) [OF w1] M by simp
  have t: "\<not> touch (active (dispatch M s1 d))" if "etype d = ''touchstart''"
  proof (cases "touch (active s1)")
    case True
    have "dispatch M s1 d = onDown M s1 d"
      using dispatch_down [OF w1] attached_touchstart [OF w1 True] that M by simp
    then show ?thesis
      using onDown_touch_dup [OF w1 that True reg] M by simp
  next
    case False
    with adv show ?thesis by (simp add: advances_def flags_le_def)
  qed
  have m: "\<not> mouse (active (dispatch M s1 d))" if "etype d = ''mousedown''"
  proof (cases "mouse (active s1)")
    case True
    have "dispatch M s1 d = onDown M s1 d"
      using dispatch_down [OF w1] attached_mousedown [OF w1 True] that M by simp
    then show ?thesis
      using onDown_mouse_dup [OF w1 that True] reg M by simp
  next
    case False
    with adv show ?thesis by (simp add: advances_def flags_le_def)
  qed
  have "\<not> touch (active s)" if "etype d = ''touchstart''"
    using inactive_later(1) [OF w2 t [OF that], of post] s M by simp
  moreover have "\<not> mouse (active s)" if "etype d = ''mousedown''"
    using inactive_later(2) [OF w2 m [OF that], of post] s M by simp
  ultimately show ?thesis using d by blast
qed

theorem at_most_one_after_duplicate_witness:
  "pointer (registered (run (eventMatrix (\<lambda>_. True) (\<lambda>_. True))
       (Tap (eventMatrix (\<lambda>_. True) (\<lambda>_. True)) None None)
       [Dispatch \<lparr>etype = ''pointerdown'', touches = None, clientX = Some 10, clientY = Some 20,
                   movementX = Some 0, movementY = Some 0\<rparr>])) \<and>
   \<not> touch (active (run (eventMatrix (\<lambda>_. True) (\<lambda>_. True))
       (dispatch (eventMatrix (\<lambda>_. True) (\<lambda>_. True))
          (run (eventMatrix (\<lambda>_. True) (\<lambda>_. True))
            (Tap (eventMatrix (\<lambda>_. True) (\<lambda>_. True)) None None)
            [Dispatch \<lparr>etype = ''pointerdown'', touches = None, clientX = Some 10, clientY = Some 20,
                        movementX = Some 0, movementY = Some 0\<rparr>])
          \<lparr>etype = ''touchstart'', touches = Some [\<lparr>pageX = Some 10, pageY = Some 20\<rparr>],
            clientX = None, clientY = None, movementX = None, movementY = None\<rparr>)
       [Pause, Resume]))"
  (is "pointer (registered (run ?M ?T [Dispatch ?p])) \<and> \<not> touch (active (run ?M (dispatch ?M ?s ?e) ?post))")
proof -
  have w0: "wf ?M ?T" by (rule wf_Tap)
  have d: "?s = onDown ?M ?T ?p"
    using dispatch_down [OF w0, of ?p] by (simp add: Tap_all_fields)
  have r: "pointer (registered ?s)"
    unfolding d using onDown_registers(1) [OF w0, of ?p] by simp
  from at_most_one_after_duplicate [OF refl refl r _ refl, of ?e ?post] r show ?thesis
    by simp
qed

subsection \<open>Positions\<close>

lemma removeDuplicates_frame:
  assumes "wf (eventMatrix tst en) s"
  shows "emitter (snd (removeDuplicates (eventMatrix tst en) s e)) = emitter s"
    and "domElement (snd (removeDuplicates (eventMatrix tst en) s e)) = domElement s"
    and "isDown (snd (removeDuplicates (eventMatrix tst en) s e)) = isDown s"
    and "isPaused (snd (removeDuplicates (eventMatrix tst en) s e)) = isPaused s"
    and "currentPosition (snd (removeDuplicates (eventMatrix tst en) s e)) = currentPosition s"
    and "lastPosition (snd (removeDuplicates (eventMatrix tst en) s e)) = lastPosition s"
    and "documentListeners (snd (removeDuplicates (eventMatrix tst en) s e)) = documentListeners s"
    and "pointerLockElement (snd (removeDuplicates (eventMatrix tst en) s e)) = pointerLockElement s"
    and "settled (snd (removeDuplicates (eventMatrix tst en) s e)) = settled s"
    and "promises (snd (removeDuplicates (eventMatrix tst en) s e)) = promises s"
    and "log (snd (removeDuplicates (eventMatrix tst en) s e)) = log s"
  by (cases rule: removeDuplicates_cases [OF assms, of e]; simp)+

lemma published_emit: "log s0 = log s \<Longrightarrow> published s (emit s0 n d) = calls s0 n d"
  by (simp add: published_def emit_def)

lemma deliver_payload:
  "x \<in> set (snd (deliver paused el n d ls)) \<Longrightarrow> \<exists>k c. x = Call k c n d"
proof (induction ls)
  case Nil
  then show ?case by simp
next
  case (Cons l ls)
  obtain n' k c where l: "l = (n', k, c)" by (cases l)
  from Cons show ?case
    by (auto simp add: l Let_def split: if_splits)
qed

lemma calls_payload: "x \<in> set (calls s n d) \<Longrightarrow> \<exists>k c. x = Call k c n d"
  unfolding calls_def by (rule deliver_payload)

lemma calcPosition_locked:
  "isLocked s \<Longrightarrow> fst (calcPosition s e) = (movementX e, movementY e)"
  by (simp add: calcPosition_def Let_def)

lemma published_run_handler:
  assumes "wf (eventMatrix tst en) s" and "x \<in> set (published s (run_handler (eventMatrix tst en) s h e))"
  shows "\<exists>k c n d. x = Call k c n d \<and> position d = fst (calcPosition s e) \<and> event d = e"
proof (cases h)
  case OnDown
  let ?s1 = "snd (removeDuplicates (eventMatrix tst en) s e)"
  have l: "log ?s1 = log s" by (rule removeDuplicates_frame [OF assms(1)])
  have p: "fst (calcPosition ?s1 e) = fst (calcPosition s e)"
    by (simp add: calcPosition_def Let_def isLocked_def removeDuplicates_frame [OF assms(1)]
          split: option.splits list.splits)
  show ?thesis
  proof (cases "fst (removeDuplicates (eventMatrix tst en) s e)")
    case True
    with assms(2) OnDown l have "x \<in> set (calls (set_position (?s1\<lparr>isDown := True\<rparr>) (fst (calcPosition ?s1 e))) Down
        \<lparr>position = fst (calcPosition ?s1 e), event = e, dragging = None\<rparr>)"
      by (simp add: run_handler_def onDown_eq published_emit)
    from calls_payload [OF this] p show ?thesis by auto
  next
    case False
    with assms(2) OnDown l show ?thesis
      by (simp add: run_handler_def onDown_eq)
  qed
next
  case OnMove
  with assms(2) have "x \<in> set (calls (set_position s (fst (calcPosition s e))) Move
      \<lparr>position = fst (calcPosition s e), event = e, dragging = Some (isDown s)\<rparr>)"
    by (simp add: run_handler_def onMove_eq published_emit)
  from calls_payload [OF this] show ?thesis by auto
next
  case OnUp
  with assms(2) have "x \<in> set (calls (set_position (s\<lparr>isDown := False\<rparr>) (fst (calcPosition s e))) Up
      \<lparr>position = fst (calcPosition s e), event = e, dragging = None\<rparr>)"
    by (simp add: run_handler_def onUp_eq published_emit)
  from calls_payload [OF this] show ?thesis by auto
qed

lemma published_dispatch:
  assumes "wf (eventMatrix tst en) s" and "x \<in> set (published s (dispatch (eventMatrix tst en) s e))"
  shows "\<exists>k c n d. x = Call k c n d \<and> position d = fst (calcPosition s e) \<and> event d = e"
  using assms(2) published_run_handler [OF assms(1), of x _ e]
  by (cases rule: dispatch_cases [OF assms(1), of "eventMatrix tst en" e]) simp_all



text \<open>
  What \<open>_calcPosition\<close> computes while pointer lock is not engaged: the page
  coordinates of the first touch point; else the client coordinates when
  \<open>clientX\<close> is present and not zero; else the previous \<open>currentPosition\<close>.
\<close>

lemma calcPosition_unlocked:
  assumes "\<not> isLocked s"
  shows "touches e = Some (t # ts) \<Longrightarrow> fst (calcPosition s e) = (pageX t, pageY t)"
    and "touches e = None \<or> touches e = Some [] \<Longrightarrow> clientX e = Some v \<Longrightarrow> v \<noteq> 0
           \<Longrightarrow> fst (calcPosition s e) = (clientX e, clientY e)"
    and "touches e = None \<or> touches e = Some [] \<Longrightarrow> clientX e = None \<or> clientX e = Some 0
           \<Longrightarrow> fst (calcPosition s e) = currentPosition s"
  using assms by (auto simp add: calcPosition_def Let_def truthy_def)

text \<open>
  Claim C5 fails on the code for an event whose \<open>clientX\<close> is the number 0: the test
  \<open>else if (e.clientX)\<close> takes 0 for an absent coordinate, and the position falls
  back to the previous \<open>currentPosition\<close> (here the initial \<open>(-1, -1)\<close>) although
  the event carries the client coordinates \<open>(0, 5)\<close>. Pointer lock is not engaged.
\<close>

theorem mousedown_at_clientX_zero:
  "published (run (eventMatrix (\<lambda>_. True) (\<lambda>_. True))
       (Tap (eventMatrix (\<lambda>_. True) (\<lambda>_. True)) None None)
       [Subscribe On Down 1])
     (dispatch (eventMatrix (\<lambda>_. True) (\<lambda>_. True))
        (run (eventMatrix (\<lambda>_. True) (\<lambda>_. True))
          (Tap (eventMatrix (\<lambda>_. True) (\<lambda>_. True)) None None)
          [Subscribe On Down 1])
        \<lparr>etype = ''mousedown'', touches = None, clientX = Some 0, clientY = Some 5,
          movementX = Some 0, movementY = Some 0\<rparr>) =
   [Call On (UserCallback 1) Down
      \<lparr>position = (Some (- 1), Some (- 1)),
       event = \<lparr>etype = ''mousedown'', touches = None, clientX = Some 0, clientY = Some 5,
                 movementX = Some 0, movementY = Some 0\<rparr>,
       dragging = None\<rparr>]"
  (is "published (run ?M ?T ?as) (dispatch _ _ ?e) = _")
proof -
  define s where "s = run ?M ?T ?as"
  have w: "wf ?M s" unfolding s_def by (rule wf_reachable)
  have f: "elementListeners s = elementListeners ?T" "active s = active ?T"
    "registered s = registered ?T" "currentPosition s = (Some (- 1), Some (- 1))"
    "emitter s = [(Down, On, UserCallback 1)]" "isPaused s = False"
    "pointerLockElement s = None" "domElement s = Window"
    by (simp_all add: s_def tap_on_def Tap_all_fields)
  have d: "dispatch ?M s ?e = onDown ?M s ?e"
    using dispatch_down [OF w, of ?e] by (simp add: f Tap_all_fields)
  have ok: "fst (removeDuplicates ?M s ?e)"
    using removeDuplicates_discards [OF w, of ?e] by (simp add: f Tap_all_fields)
  let ?s1 = "snd (removeDuplicates ?M s ?e)"
  have p: "fst (calcPosition ?s1 ?e) = (Some (- 1), Some (- 1))"
    by (simp add: calcPosition_def Let_def truthy_def isLocked_def f removeDuplicates_frame [OF w])
  have "published s (dispatch ?M s ?e) =
      [Call On (UserCallback 1) Down
         \<lparr>position = (Some (- 1), Some (- 1)), event = ?e, dragging = None\<rparr>]"
    unfolding d
    by (simp add: onDown_eq ok p published_emit calls_def throws_def f removeDuplicates_frame [OF w])
  then show ?thesis unfolding s_def .
qed

subsection \<open>Pointer lock\<close>

lemma run_handler_browser_frame:
  assumes "wf (eventMatrix tst en) s"
  shows "documentListeners (run_handler (eventMatrix tst en) s h e) = documentListeners s"
    and "settled (run_handler (eventMatrix tst en) s h e) = settled s"
    and "promises (run_handler (eventMatrix tst en) s h e) = promises s"
    and "pointerLockElement (run_handler (eventMatrix tst en) s h e) = pointerLockElement s"
  by (cases h; simp add: run_handler_def onDown_eq onMove_eq onUp_eq
        removeDuplicates_frame [OF assms])+

lemma dispatch_browser_frame:
  assumes "wf (eventMatrix tst en) s"
  shows "documentListeners (dispatch (eventMatrix tst en) s e) = documentListeners s"
    and "settled (dispatch (eventMatrix tst en) s e) = settled s"
    and "promises (dispatch (eventMatrix tst en) s e) = promises s"
    and "pointerLockElement (dispatch (eventMatrix tst en) s e) = pointerLockElement s"
  by (cases rule: dispatch_cases [OF assms, of "eventMatrix tst en" e];
      simp add: run_handler_browser_frame [OF assms])+

lemma step_promises_fresh:
  assumes "wf (eventMatrix tst en) s"
    and "\<forall>q \<in> set (documentListeners s) \<union> set (settled s). q < promises s"
  shows "\<forall>q \<in> set (documentListeners (step (eventMatrix tst en) s a))
            \<union> set (settled (step (eventMatrix tst en) s a)).
           q < promises (step (eventMatrix tst en) s a)"
proof (cases a)
  case (Dispatch e)
  then show ?thesis using assms(2) by (simp add: dispatch_browser_frame [OF assms(1)])
next
  case (Subscribe k n c)
  then show ?thesis using assms(2) by (cases k) (simp_all add: tap_on_def tap_once_def)
next
  case Request
  then show ?thesis using assms(2)
    by (auto simp add: pointerLock_request_def Let_def tap_once_def less_Suc_eq)
next
  case Exit
  then show ?thesis using assms(2)
    by (auto simp add: pointerLock_exit_def Let_def less_Suc_eq)
next
  case (LockChange l)
  then show ?thesis using assms(2) by (auto simp add: lockChange_def)
qed (use assms(2) in \<open>simp_all add: pause_def resume_def\<close>)

lemma promises_fresh_reachable:
  assumes "s = run (eventMatrix tst en) (Tap (eventMatrix tst en) lock el) acts"
  shows "\<forall>q \<in> set (documentListeners s) \<union> set (settled s). q < promises s"
proof -
  let ?M = "eventMatrix tst en"
  have "wf ?M (run ?M (Tap ?M lock el) acts) \<and>
      (\<forall>q \<in> set (documentListeners (run ?M (Tap ?M lock el) acts))
            \<union> set (settled (run ?M (Tap ?M lock el) acts)).
         q < promises (run ?M (Tap ?M lock el) acts))"
  proof (rule run_invariant [where P = "\<lambda>t. wf ?M t \<and>
      (\<forall>q \<in> set (documentListeners t) \<union> set (settled t). q < promises t)"])
    show "wf ?M (Tap ?M lock el) \<and>
      (\<forall>q \<in> set (documentListeners (Tap ?M lock el)) \<union> set (settled (Tap ?M lock el)).
         q < promises (Tap ?M lock el))"
      by (simp add: wf_Tap) (simp add: Tap_eventMatrix fresh_def)
  next
    fix t a
    assume "wf ?M t \<and> (\<forall>q \<in> set (documentListeners t) \<union> set (settled t). q < promises t)"
    then show "wf ?M (step ?M t a) \<and>
      (\<forall>q \<in> set (documentListeners (step ?M t a)) \<union> set (settled (step ?M t a)).
         q < promises (step ?M t a))"
      using step_keeps(1) step_promises_fresh by blast
  qed
  then show ?thesis using assms by simp
qed

lemma step_pending:
  assumes "wf (eventMatrix tst en) s"
    and "p < promises s" and "p \<notin> set (documentListeners s)" and "p \<notin> set (settled s)"
  shows "p < promises (step (eventMatrix tst en) s a) \<and>
    p \<notin> set (documentListeners (step (eventMatrix tst en) s a)) \<and>
    p \<notin> set (settled (step (eventMatrix tst en) s a))"
proof (cases a)
  case (Dispatch e)
  then show ?thesis using assms(2-4) by (simp add: dispatch_browser_frame [OF assms(1)])
next
  case (Subscribe k n c)
  then show ?thesis using assms(2-4) by (cases k) (simp_all add: tap_on_def tap_once_def)
next
  case Request
  then show ?thesis using assms(2-4)
    by (auto simp add: pointerLock_request_def Let_def tap_once_def)
next
  case Exit
  then show ?thesis using assms(2-4)
    by (auto simp add: pointerLock_exit_def Let_def)
next
  case (LockChange l)
  then show ?thesis using assms(2-4) by (simp add: lockChange_def)
qed (use assms(2-4) in \<open>simp_all add: pause_def resume_def\<close>)

lemma never_settles:
  assumes "wf (eventMatrix tst en) s"
    and "p < promises s" and "p \<notin> set (documentListeners s)" and "p \<notin> set (settled s)"
  shows "p \<notin> set (settled (run (eventMatrix tst en) s acts))"
proof -
  let ?M = "eventMatrix tst en"
  have "wf ?M (run ?M s acts) \<and> (p < promises (run ?M s acts) \<and>
      p \<notin> set (documentListeners (run ?M s acts)) \<and> p \<notin> set (settled (run ?M s acts)))"
  proof (rule run_invariant [where P = "\<lambda>t. wf ?M t \<and> (p < promises t \<and>
      p \<notin> set (documentListeners t) \<and> p \<notin> set (settled t))"])
    show "wf ?M s \<and> (p < promises s \<and> p \<notin> set (documentListeners s) \<and> p \<notin> set (settled s))"
      using assms by simp
  next
    fix t a
    assume "wf ?M t \<and> (p < promises t \<and> p \<notin> set (documentListeners t) \<and> p \<notin> set (settled t))"
    then show "wf ?M (step ?M t a) \<and> (p < promises (step ?M t a) \<and>
        p \<notin> set (documentListeners (step ?M t a)) \<and> p \<notin> set (settled (step ?M t a)))"
      using step_keeps(1) step_pending by blast
  qed
  then show ?thesis by simp
qed

text \<open>
  Claim C9. \<open>pointerLock.request()\<close> called while pointer lock is engaged, and
  \<open>pointerLock.exit()\<close> called while it is not, return a promise and do nothing
  else: no \<open>pointerlockchange\<close> listener is added to the document and no
  \<open>once.down\<close> subscription is made (the state changes only in the count of
  promises handed out), and whatever happens afterwards the promise is never
  resolved.
\<close>

theorem pointerLock_noop_never_settles:
  assumes M: "M = eventMatrix tst en"
    and s: "s = run M (Tap M lock el) acts"
  shows "(isLocked s \<longrightarrow>
           snd (pointerLock_request s) = s\<lparr>promises := Suc (promises s)\<rparr> \<and>
           documentListeners (snd (pointerLock_request s)) = documentListeners s \<and>
           emitter (snd (pointerLock_request s)) = emitter s \<and>
           (\<forall>later. fst (pointerLock_request s)
               \<notin> set (settled (run M (snd (pointerLock_request s)) later)))) \<and>
         (\<not> isLocked s \<longrightarrow>
           snd (pointerLock_exit s) = s\<lparr>promises := Suc (promises s)\<rparr> \<and>
           documentListeners (snd (pointerLock_exit s)) = documentListeners s \<and>
           emitter (snd (pointerLock_exit s)) = emitter s \<and>
           log (snd (pointerLock_exit s)) = log s \<and>
           (\<forall>later. fst (pointerLock_exit s)
               \<notin> set (settled (run M (snd (pointerLock_exit s)) later))))"
proof -
  have w: "wf (eventMatrix tst en) s"
    unfolding s M by (rule wf_reachable)
  have fr: "\<forall>q \<in> set (documentListeners s) \<union> set (settled s). q < promises s"
    using promises_fresh_reachable s M by simp
  let ?s' = "s\<lparr>promises := Suc (promises s)\<rparr>"
  have w': "wf (eventMatrix tst en) ?s'"
    using w by (simp add: wf_def)
  have pending: "promises s \<notin> set (settled (run (eventMatrix tst en) ?s' later))" for later
    by (rule never_settles [OF w']) (use fr in auto)
  have req: "pointerLock_request s = (promises s, ?s')" if "isLocked s"
    using that by (simp add: pointerLock_request_def Let_def isLocked_def)
  have ex: "pointerLock_exit s = (promises s, ?s')" if "\<not> isLocked s"
    using that by (simp add: pointerLock_exit_def Let_def isLocked_def)
  show ?thesis
    using pending by (simp add: req ex M)
qed

theorem pointerLock_noop_never_settles_witness:
  "isLocked (Tap (eventMatrix (\<lambda>_. True) (\<lambda>_. True)) (Some Window) None) \<and>
   fst (pointerLock_request (Tap (eventMatrix (\<lambda>_. True) (\<lambda>_. True)) (Some Window) None))
     \<notin> set (settled (run (eventMatrix (\<lambda>_. True) (\<lambda>_. True))
          (snd (pointerLock_request (Tap (eventMatrix (\<lambda>_. True) (\<lambda>_. True)) (Some Window) None)))
          [LockChange None, LockChange (Some Window)])) \<and>
   \<not> isLocked (Tap (eventMatrix (\<lambda>_. True) (\<lambda>_. True)) None None) \<and>
   fst (pointerLock_exit (Tap (eventMatrix (\<lambda>_. True) (\<lambda>_. True)) None None))
     \<notin> set (settled (run (eventMatrix (\<lambda>_. True) (\<lambda>_. True))
          (snd (pointerLock_exit (Tap (eventMatrix (\<lambda>_. True) (\<lambda>_. True)) None None)))
          [LockChange (Some Window), LockChange None]))"
proof -
  have l1: "isLocked (Tap (eventMatrix (\<lambda>_. True) (\<lambda>_. True)) (Some Window) None)"
    by (simp add: isLocked_def Tap_all_fields)
  have l0: "\<not> isLocked (Tap (eventMatrix (\<lambda>_. True) (\<lambda>_. True)) None None)"
    by (simp add: isLocked_def Tap_all_fields)
  note req = pointerLock_noop_never_settles [OF refl run_Nil [symmetric],
       of "\<lambda>_. True" "\<lambda>_. True" "Some Window" None, THEN conjunct1, THEN mp, OF l1]
  note ex = pointerLock_noop_never_settles [OF refl run_Nil [symmetric],
       of "\<lambda>_. True" "\<lambda>_. True" None None, THEN conjunct2, THEN mp, OF l0]
  note a = req [THEN conjunct2, THEN conjunct2, THEN conjunct2, THEN spec,
       of "[LockChange None, LockChange (Some Window)]"]
  note b = ex [THEN conjunct2, THEN conjunct2, THEN conjunct2, THEN conjunct2, THEN spec,
       of "[LockChange (Some Window), LockChange None]"]
  from l1 a l0 b show ?thesis by (intro conjI)
qed

subsection \<open>The isDown flag\<close>

lemma family_attached:
  assumes "i \<in> set (eventMatrix tst en)" and "get_flag a (name i)"
  shows "(down (events i), OnDown) \<in> set (attached (eventMatrix tst en) a)"
    and "(move (events i), OnMove) \<in> set (attached (eventMatrix tst en) a)"
    and "(up (events i), OnUp) \<in> set (attached (eventMatrix tst en) a)"
proof -
  from assms(1) consider
      "i = \<lparr>name = Touch, test = tst Touch, enabled = en Touch,
            events = \<lparr>down = ''touchstart'', move = ''touchmove'', up = ''touchend''\<rparr>\<rparr>"
    | "i = \<lparr>name = Mouse, test = tst Mouse, enabled = en Mouse,
            events = \<lparr>down = ''mousedown'', move = ''mousemove'', up = ''mouseup''\<rparr>\<rparr>"
    | "i = \<lparr>name = Pointer, test = tst Pointer, enabled = en Pointer,
            events = \<lparr>down = ''pointerdown'', move = ''pointermove'', up = ''pointerup''\<rparr>\<rparr>"
    unfolding eventMatrix_def by fastforce
  then have "(down (events i), OnDown) \<in> set (attached (eventMatrix tst en) a)
      \<and> (move (events i), OnMove) \<in> set (attached (eventMatrix tst en) a)
      \<and> (up (events i), OnUp) \<in> set (attached (eventMatrix tst en) a)"
    using assms(2) by cases (simp_all add: in_attached)
  then show "(down (events i), OnDown) \<in> set (attached (eventMatrix tst en) a)"
    and "(move (events i), OnMove) \<in> set (attached (eventMatrix tst en) a)"
    and "(up (events i), OnUp) \<in> set (attached (eventMatrix tst en) a)"
    by simp_all
qed

lemma states_nonempty [simp]: "states M s es \<noteq> []"
  by (cases es) simp_all

lemma states_hd [simp]: "hd (states M s es) = s"
  by (cases es) simp_all

lemma states_snoc:
  "states M s (es @ [e]) = states M s es @ [dispatch M (last (states M s es)) e]"
  by (induction es arbitrary: s) simp_all

lemma states_append:
  "states M s (xs @ ys) = butlast (states M s xs) @ states M (last (states M s xs)) ys"
  by (induction xs arbitrary: s) simp_all

lemma move_keeps_down:
  assumes "wf (eventMatrix tst en) s" and "i \<in> set (eventMatrix tst en)"
    and "get_flag (active s) (name i)" and "etype m = move (events i)"
  shows "wf (eventMatrix tst en) (dispatch (eventMatrix tst en) s m)"
    and "active (dispatch (eventMatrix tst en) s m) = active s"
    and "isDown (dispatch (eventMatrix tst en) s m) = isDown s"
proof -
  have "(etype m, OnMove) \<in> set (elementListeners s)"
    using family_attached(2) [OF assms(2,3)] assms(1,4) by (simp add: wf_def)
  from dispatch_wf [OF assms(1) this]
  have d: "dispatch (eventMatrix tst en) s m = onMove s m"
    by (simp add: run_handler_def)
  show "wf (eventMatrix tst en) (dispatch (eventMatrix tst en) s m)"
    by (rule dispatch_keeps(1) [OF assms(1)])
  show "active (dispatch (eventMatrix tst en) s m) = active s"
    and "isDown (dispatch (eventMatrix tst en) s m) = isDown s"
    by (simp_all add: d onMove_eq)
qed

lemma moves_keep_down:
  assumes "i \<in> set (eventMatrix tst en)" and "list_all (\<lambda>m. etype m = move (events i)) ms"
    and "wf (eventMatrix tst en) s" and "get_flag (active s) (name i)" and "isDown s"
  shows "map isDown (states (eventMatrix tst en) s ms) = replicate (Suc (length ms)) True
    \<and> wf (eventMatrix tst en) (last (states (eventMatrix tst en) s ms))
    \<and> active (last (states (eventMatrix tst en) s ms)) = active s"
  using assms(2-5)
proof (induction ms arbitrary: s)
  case Nil
  then show ?case by simp
next
  case (Cons m ms)
  let ?t = "dispatch (eventMatrix tst en) s m"
  from Cons.prems have m: "etype m = move (events i)"
    and ms: "list_all (\<lambda>m. etype m = move (events i)) ms" by simp_all
  note k = move_keeps_down [OF Cons.prems(2) assms(1) Cons.prems(3) m]
  have "map isDown (states (eventMatrix tst en) ?t ms) = replicate (Suc (length ms)) True
    \<and> wf (eventMatrix tst en) (last (states (eventMatrix tst en) ?t ms))
    \<and> active (last (states (eventMatrix tst en) ?t ms)) = active ?t"
    by (rule Cons.IH [OF ms k(1)]) (use k Cons.prems in simp_all)
  with k Cons.prems(4) show ?case by simp
qed

lemma cycle_isDown:
  assumes "i \<in> set (eventMatrix tst en)" and "from_family i (d, ms, u)"
    and "wf (eventMatrix tst en) s" and "get_flag (active s) (name i)" and "\<not> isDown s"
    and "fst (removeDuplicates (eventMatrix tst en) s d)"
  shows "map isDown (states (eventMatrix tst en) s (cycle_events (d, ms, u)))
      = False # replicate (Suc (length ms)) True @ [False]"
    and "wf (eventMatrix tst en) (last (states (eventMatrix tst en) s (cycle_events (d, ms, u))))"
    and "\<not> isDown (last (states (eventMatrix tst en) s (cycle_events (d, ms, u))))"
proof -
  let ?M = "eventMatrix tst en"
  let ?s1 = "dispatch ?M s d"
  let ?s2 = "last (states ?M ?s1 ms)"
  from assms(2) have d: "etype d = down (events i)"
    and ms: "list_all (\<lambda>m. etype m = move (events i)) ms"
    and u: "etype u = up (events i)" by simp_all
  have "(etype d, OnDown) \<in> set (elementListeners s)"
    using family_attached(1) [OF assms(1,4)] assms(3) d by (simp add: wf_def)
  then have d1: "?s1 = onDown ?M s d"
    by (rule dispatch_down [OF assms(3)])
  have w1: "wf ?M ?s1" by (rule dispatch_keeps(1) [OF assms(3)])
  have a1: "active ?s1 = active s" and down1: "isDown ?s1"
    unfolding d1 using onDown_proceeds [OF assms(3,6)] by simp_all
  have mv: "map isDown (states ?M ?s1 ms) = replicate (Suc (length ms)) True
    \<and> wf ?M ?s2 \<and> active ?s2 = active ?s1"
    by (rule moves_keep_down [OF assms(1) ms w1]) (use a1 assms(4) down1 in simp_all)
  then have w2: "wf ?M ?s2" and a2: "get_flag (active ?s2) (name i)"
    using a1 assms(4) by simp_all
  have "(etype u, OnUp) \<in> set (elementListeners ?s2)"
    using family_attached(3) [OF assms(1) a2] w2 u by (simp add: wf_def)
  from dispatch_wf [OF w2 this]
  have d3: "dispatch ?M ?s2 u = onUp ?s2 u"
    by (simp add: run_handler_def)
  have up: "\<not> isDown (dispatch ?M ?s2 u)"
    by (simp add: d3 onUp_eq)
  have st: "states ?M s (cycle_events (d, ms, u)) = s # states ?M ?s1 ms @ [dispatch ?M ?s2 u]"
    by (simp add: states_snoc)
  show "map isDown (states ?M s (cycle_events (d, ms, u)))
      = False # replicate (Suc (length ms)) True @ [False]"
    unfolding st using mv up assms(5) by simp
  show "wf ?M (last (states ?M s (cycle_events (d, ms, u))))"
    unfolding st using dispatch_keeps(1) [OF w2, of u] by simp
  show "\<not> isDown (last (states ?M s (cycle_events (d, ms, u))))"
    unfolding st using up by simp
qed

lemma cycles_isDown:
  assumes "wf (eventMatrix tst en) s" and "\<not> isDown s"
    and "cycles_ok (eventMatrix tst en) s cs"
  shows "map isDown (states (eventMatrix tst en) s (concat (map cycle_events cs)))
      = concat (map (\<lambda>(d, ms, u). False # replicate (Suc (length ms)) True) cs) @ [False]"
  using assms
proof (induction cs arbitrary: s)
  case Nil
  then show ?case by simp
next
  case (Cons c cs)
  let ?M = "eventMatrix tst en"
  obtain d ms u where c: "c = (d, ms, u)" by (cases c)
  let ?t = "last (states ?M s (cycle_events (d, ms, u)))"
  from Cons.prems(3) c obtain i where i: "i \<in> set ?M" "get_flag (active s) (name i)"
      "from_family i (d, ms, u)"
    and ok: "fst (removeDuplicates ?M s d)" and rest: "cycles_ok ?M ?t cs"
    by (auto simp: list_ex_iff)
  note cy = cycle_isDown [OF i(1,3) Cons.prems(1) i(2) Cons.prems(2) ok]
  have ih: "map isDown (states ?M ?t (concat (map cycle_events cs)))
      = concat (map (\<lambda>(d, ms, u). False # replicate (Suc (length ms)) True) cs) @ [False]"
    by (rule Cons.IH [OF cy(2,3) rest])
  have "map isDown (states ?M s (cycle_events (d, ms, u) @ concat (map cycle_events cs)))
      = butlast (map isDown (states ?M s (cycle_events (d, ms, u))))
        @ map isDown (states ?M ?t (concat (map cycle_events cs)))"
    by (simp only: states_append map_append map_butlast)
  also have "\<dots> = (False # replicate (Suc (length ms)) True)
        @ concat (map (\<lambda>(d, ms, u). False # replicate (Suc (length ms)) True) cs) @ [False]"
    unfolding cy(1) ih by (simp add: butlast_append)
  finally show ?case by (simp add: c)
qed

text \<open>
  Claim C4. From construction, take any sequence of cycles, each a down event, any
  number of moves and an up event of one input family that is active when the
  cycle starts and whose down event is not suppressed. Then \<open>isDown\<close> is false
  before each down, true after the down and after every move, and false after
  the up: listed over the states before and after each event, the flag reads
  false, true (once for the down and once per move), and false at the end.
\<close>

theorem isDown_between_down_and_up:
  assumes M: "M = eventMatrix tst en"
    and ok: "cycles_ok M (Tap M lock el) cs"
  shows "map isDown (states M (Tap M lock el) (concat (map cycle_events cs)))
      = concat (map (\<lambda>(d, ms, u). False # replicate (Suc (length ms)) True) cs) @ [False]"
  unfolding M
  by (rule cycles_isDown [OF wf_Tap]) (use ok M in \<open>simp_all add: Tap_eventMatrix fresh_def\<close>)

theorem isDown_between_down_and_up_witness:
  "cycles_ok (eventMatrix (\<lambda>_. True) (\<lambda>_. True))
     (Tap (eventMatrix (\<lambda>_. True) (\<lambda>_. True)) None None)
     [(\<lparr>etype = ''mousedown'', touches = None, clientX = Some 10, clientY = Some 20,
         movementX = Some 0, movementY = Some 0\<rparr>,
       [\<lparr>etype = ''mousemove'', touches = None, clientX = Some 12, clientY = Some 22,
          movementX = Some 2, movementY = Some 2\<rparr>],
       \<lparr>etype = ''mouseup'', touches = None, clientX = Some 15, clientY = Some 25,
         movementX = Some 3, movementY = Some 3\<rparr>)] \<and>
   map isDown (states (eventMatrix (\<lambda>_. True) (\<lambda>_. True))
     (Tap (eventMatrix (\<lambda>_. True) (\<lambda>_. True)) None None)
     [\<lparr>etype = ''mousedown'', touches = None, clientX = Some 10, clientY = Some 20,
        movementX = Some 0, movementY = Some 0\<rparr>,
      \<lparr>etype = ''mousemove'', touches = None, clientX = Some 12, clientY = Some 22,
        movementX = Some 2, movementY = Some 2\<rparr>,
      \<lparr>etype = ''mouseup'', touches = None, clientX = Some 15, clientY = Some 25,
        movementX = Some 3, movementY = Some 3\<rparr>]) = [False, True, True, False]"
  (is "cycles_ok ?M ?T [(?d, [?m], ?u)] \<and> _")
proof -
  have w: "wf ?M ?T" by (rule wf_Tap)
  have "fst (removeDuplicates ?M ?T ?d)"
    using removeDuplicates_discards [OF w, of ?d] by (simp add: Tap_all_fields)
  moreover have "list_ex (\<lambda>i. get_flag (active ?T) (name i) \<and> from_family i (?d, [?m], ?u)) ?M"
    by (simp add: Tap_all_fields) (simp add: eventMatrix_def)
  ultimately have ok: "cycles_ok ?M ?T [(?d, [?m], ?u)]"
    by simp
  from isDown_between_down_and_up [OF refl ok] ok show ?thesis
    by simp
qed

subsection \<open>Pause\<close>

lemma calls_cong:
  "emitter v = emitter s \<Longrightarrow> isPaused v = isPaused s \<Longrightarrow> domElement v = domElement s
     \<Longrightarrow> calls v n d = calls s n d"
  by (simp add: calls_def)

lemma deliver_subset: "set (fst (deliver paused el n d ls)) \<subseteq> set ls"
proof (induction ls)
  case Nil
  then show ?case by simp
next
  case (Cons l ls)
  obtain n' k c where l: "l = (n', k, c)" by (cases l)
  from Cons show ?case
    by (auto simp add: l Let_def)
qed

lemma deliver_paused:
  assumes "\<forall>n' c. (n', On, c) \<in> set ls \<longrightarrow> \<not> throws el c"
  shows "fst (deliver True el n d ls) = fst (deliver False el n d ls) \<and>
    snd (deliver True el n d ls) = filter is_once_call (snd (deliver False el n d ls))"
  using assms
proof (induction ls)
  case Nil
  then show ?case by simp
next
  case (Cons l ls)
  obtain n' k c where l: "l = (n', k, c)" by (cases l)
  from Cons.prems have "\<forall>n' c. (n', On, c) \<in> set ls \<longrightarrow> \<not> throws el c"
    by simp
  then have ih: "fst (deliver True el n d ls) = fst (deliver False el n d ls)"
    "snd (deliver True el n d ls) = filter is_once_call (snd (deliver False el n d ls))"
    using Cons.IH by simp_all
  show ?case
  proof (cases k)
    case On
    with Cons.prems l have "\<not> throws el c" by simp
    with On ih show ?thesis by (simp add: l Let_def)
  next
    case Once
    with ih show ?thesis by (simp add: l Let_def)
  qed
qed

lemma deliver_once:
  assumes "(n, Once, c) \<in> set ls"
    and "\<forall>k c'. (n, k, c') \<in> set ls \<longrightarrow> \<not> throws el c'"
  shows "Call Once c n d \<in> set (snd (deliver paused el n d ls))"
  using assms
proof (induction ls)
  case Nil
  then show ?case by simp
next
  case (Cons l ls)
  obtain n' k c' where l: "l = (n', k, c')" by (cases l)
  from Cons.prems(2) have nt: "\<forall>k c'. (n, k, c') \<in> set ls \<longrightarrow> \<not> throws el c'"
    by simp
  from Cons.prems(2) l have here: "n' = n \<Longrightarrow> \<not> throws el c'"
    by simp
  show ?case
  proof (cases "l = (n, Once, c)")
    case True
    with l here show ?thesis by (simp add: Let_def)
  next
    case False
    with Cons.prems(1) have "(n, Once, c) \<in> set ls" by simp
    from Cons.IH [OF this nt] here show ?thesis
      by (simp add: l Let_def)
  qed
qed

text \<open>
  Only \<open>pointerLock.request\<close> subscribes the callback that can throw, and it does
  so through \<open>once.down\<close>: no listener registered through \<open>on.*\<close> throws.
\<close>

lemma emit_no_on_lock:
  assumes "\<forall>n. (n, On, RequestPointerLock) \<notin> set (emitter s)"
  shows "\<forall>n. (n, On, RequestPointerLock) \<notin> set (emitter (emit s m d))"
  using assms deliver_subset [of "isPaused s" "domElement s" m d "emitter s"]
  by (auto simp add: emit_def)

lemma run_handler_no_on_lock:
  assumes "wf (eventMatrix tst en) s" and "\<forall>n. (n, On, RequestPointerLock) \<notin> set (emitter s)"
  shows "\<forall>n. (n, On, RequestPointerLock) \<notin> set (emitter (run_handler (eventMatrix tst en) s h e))"
proof (cases h)
  case OnDown
  note fr = removeDuplicates_frame [OF assms(1), of e]
  show ?thesis
    unfolding OnDown run_handler_def handler.case onDown_eq
    by (cases "fst (removeDuplicates (eventMatrix tst en) s e)")
       (use assms(2) fr(1) in \<open>simp_all add: emit_no_on_lock\<close>)
next
  case OnMove
  show ?thesis
    unfolding OnMove run_handler_def handler.case onMove_eq
    by (rule emit_no_on_lock) (use assms(2) in simp)
next
  case OnUp
  show ?thesis
    unfolding OnUp run_handler_def handler.case onUp_eq
    by (rule emit_no_on_lock) (use assms(2) in simp)
qed

lemma step_no_on_lock:
  assumes "wf (eventMatrix tst en) s" and "\<forall>n. (n, On, RequestPointerLock) \<notin> set (emitter s)"
  shows "\<forall>n. (n, On, RequestPointerLock) \<notin> set (emitter (step (eventMatrix tst en) s a))"
proof (cases a)
  case (Dispatch e)
  show ?thesis
    unfolding Dispatch step.simps
    by (cases rule: dispatch_cases [OF assms(1), of "eventMatrix tst en" e])
       (use assms(2) run_handler_no_on_lock [OF assms] in simp_all)
next
  case (Subscribe k n c)
  then show ?thesis using assms(2) by (cases k) (simp_all add: tap_on_def tap_once_def)
qed (use assms(2) in \<open>simp_all add: pause_def resume_def pointerLock_request_def
       pointerLock_exit_def lockChange_def tap_once_def Let_def\<close>)

lemma no_on_lock_reachable:
  assumes "s = run (eventMatrix tst en) (Tap (eventMatrix tst en) lock el) acts"
  shows "\<forall>n. (n, On, RequestPointerLock) \<notin> set (emitter s)"
proof -
  let ?M = "eventMatrix tst en"
  have "wf ?M (run ?M (Tap ?M lock el) acts) \<and>
      (\<forall>n. (n, On, RequestPointerLock) \<notin> set (emitter (run ?M (Tap ?M lock el) acts)))"
  proof (rule run_invariant [where P = "\<lambda>t. wf ?M t \<and>
      (\<forall>n. (n, On, RequestPointerLock) \<notin> set (emitter t))"])
    show "wf ?M (Tap ?M lock el) \<and>
      (\<forall>n. (n, On, RequestPointerLock) \<notin> set (emitter (Tap ?M lock el)))"
      by (simp add: wf_Tap) (simp add: Tap_eventMatrix fresh_def)
  next
    fix t a
    assume "wf ?M t \<and> (\<forall>n. (n, On, RequestPointerLock) \<notin> set (emitter t))"
    then show "wf ?M (step ?M t a) \<and>
      (\<forall>n. (n, On, RequestPointerLock) \<notin> set (emitter (step ?M t a)))"
      using step_keeps(1) step_no_on_lock by blast
  qed
  then show ?thesis using assms by simp
qed

lemma no_on_throws:
  assumes "\<forall>n. (n, On, RequestPointerLock) \<notin> set (emitter v)"
  shows "\<forall>n' c. (n', On, c) \<in> set (emitter v) \<longrightarrow> \<not> throws (domElement v) c"
  using assms by (auto simp add: throws_def)

lemma calls_paused:
  assumes "isPaused v" and "\<forall>n. (n, On, RequestPointerLock) \<notin> set (emitter v)"
  shows "calls v n d = filter is_once_call (calls (v\<lparr>isPaused := False\<rparr>) n d)"
  using assms(1) deliver_paused [OF no_on_throws [OF assms(2)], of n d]
  by (simp add: calls_def)

lemma calls_once:
  assumes "(n, Once, c) \<in> set (emitter v)"
    and "\<forall>m. (m, On, RequestPointerLock) \<notin> set (emitter v)"
    and "(n, Once, RequestPointerLock) \<notin> set (emitter v) \<or> domElement v \<noteq> Window"
  shows "Call Once c n d \<in> set (calls v n d)"
proof -
  have "\<forall>k c'. (n, k, c') \<in> set (emitter v) \<longrightarrow> \<not> throws (domElement v) c'"
  proof (intro allI impI)
    fix k c'
    assume "(n, k, c') \<in> set (emitter v)"
    with assms(2,3) show "\<not> throws (domElement v) c'"
      by (cases k) (auto simp add: throws_def)
  qed
  from deliver_once [OF assms(1) this] show ?thesis
    by (simp add: calls_def)
qed

lemma set_position_isPaused:
  "set_position (v\<lparr>isPaused := b\<rparr>) p = (set_position v p)\<lparr>isPaused := b\<rparr>"
  by (simp add: set_position_def)

lemma calcPosition_fst_isPaused:
  "fst (calcPosition (v\<lparr>isPaused := b\<rparr>) e) = fst (calcPosition v e)"
  by (simp add: calcPosition_def Let_def isLocked_def split: option.splits list.splits)

lemma emit_paused:
  assumes "isPaused v" and "\<forall>n. (n, On, RequestPointerLock) \<notin> set (emitter v)"
  shows "emit v n d =
     (emit (v\<lparr>isPaused := False\<rparr>) n d)
       \<lparr>isPaused := True,
        log := log v @ filter is_once_call (calls (v\<lparr>isPaused := False\<rparr>) n d)\<rparr>"
  using assms(1) calls_paused [OF assms, of n d]
    deliver_paused [OF no_on_throws [OF assms(2)], of n d]
  by (simp add: emit_def)

lemma removeDuplicates_isPaused:
  assumes "wf (eventMatrix tst en) v"
  shows "removeDuplicates (eventMatrix tst en) (v\<lparr>isPaused := b\<rparr>) e =
     (fst (removeDuplicates (eventMatrix tst en) v e),
      (snd (removeDuplicates (eventMatrix tst en) v e))\<lparr>isPaused := b\<rparr>)"
proof -
  have w: "wf (eventMatrix tst en) (v\<lparr>isPaused := b\<rparr>)"
    using assms by (simp add: wf_def)
  show ?thesis
    by (cases rule: removeDuplicates_cases [OF assms, of e];
        simp add: removeDuplicates_eventMatrix [OF w])
qed

lemma paused_emit_step:
  assumes "isPaused v" and "v' = v\<lparr>isPaused := False\<rparr>" and "log v = log s"
    and "\<forall>n. (n, On, RequestPointerLock) \<notin> set (emitter v)"
  shows "emit v n d =
     (emit v' n d)\<lparr>isPaused := True,
        log := log s @ filter is_once_call (published (resume s) (emit v' n d))\<rparr>"
proof -
  have "published (resume s) (emit v' n d) = calls v' n d"
    by (rule published_emit) (simp add: assms resume_def)
  then show ?thesis
    using emit_paused [OF assms(1,4), of n d] assms(2,3) by simp
qed

lemma run_handler_paused:
  assumes "wf (eventMatrix tst en) s" and "isPaused s"
    and "\<forall>n. (n, On, RequestPointerLock) \<notin> set (emitter s)"
  shows "run_handler (eventMatrix tst en) s h e =
     (run_handler (eventMatrix tst en) (resume s) h e)
       \<lparr>isPaused := True,
        log := log s @ filter is_once_call
          (published (resume s) (run_handler (eventMatrix tst en) (resume s) h e))\<rparr>"
proof (cases h)
  case OnMove
  have p: "fst (calcPosition (resume s) e) = fst (calcPosition s e)"
    by (simp add: resume_def calcPosition_fst_isPaused)
  have "emit (set_position s (fst (calcPosition s e))) Move
          \<lparr>position = fst (calcPosition s e), event = e, dragging = Some (isDown s)\<rparr> =
     (emit (set_position (resume s) (fst (calcPosition s e))) Move
          \<lparr>position = fst (calcPosition s e), event = e, dragging = Some (isDown s)\<rparr>)
       \<lparr>isPaused := True,
        log := log s @ filter is_once_call (published (resume s)
          (emit (set_position (resume s) (fst (calcPosition s e))) Move
          \<lparr>position = fst (calcPosition s e), event = e, dragging = Some (isDown s)\<rparr>))\<rparr>"
    by (rule paused_emit_step) (simp_all add: assms(2,3) resume_def set_position_isPaused)
  then show ?thesis
    by (simp add: OnMove run_handler_def onMove_eq p) (simp add: resume_def)
next
  case OnUp
  have p: "fst (calcPosition (resume s) e) = fst (calcPosition s e)"
    by (simp add: resume_def calcPosition_fst_isPaused)
  have "emit (set_position (s\<lparr>isDown := False\<rparr>) (fst (calcPosition s e))) Up
          \<lparr>position = fst (calcPosition s e), event = e, dragging = None\<rparr> =
     (emit (set_position ((resume s)\<lparr>isDown := False\<rparr>) (fst (calcPosition s e))) Up
          \<lparr>position = fst (calcPosition s e), event = e, dragging = None\<rparr>)
       \<lparr>isPaused := True,
        log := log s @ filter is_once_call (published (resume s)
          (emit (set_position ((resume s)\<lparr>isDown := False\<rparr>) (fst (calcPosition s e))) Up
          \<lparr>position = fst (calcPosition s e), event = e, dragging = None\<rparr>))\<rparr>"
    by (rule paused_emit_step) (simp_all add: assms(2,3) resume_def set_position_def)
  then show ?thesis
    by (simp add: OnUp run_handler_def onUp_eq p)
next
  case OnDown
  let ?M = "eventMatrix tst en"
  let ?s1 = "snd (removeDuplicates ?M s e)"
  note fr = removeDuplicates_frame [OF assms(1), of e]
  have rd: "removeDuplicates ?M (resume s) e = (fst (removeDuplicates ?M s e), resume ?s1)"
    by (simp add: resume_def removeDuplicates_isPaused [OF assms(1)])
  have p: "fst (calcPosition (resume ?s1) e) = fst (calcPosition ?s1 e)"
    by (simp add: resume_def calcPosition_fst_isPaused)
  show ?thesis
  proof (cases "fst (removeDuplicates ?M s e)")
    case True
    have "emit (set_position (?s1\<lparr>isDown := True\<rparr>) (fst (calcPosition ?s1 e))) Down
          \<lparr>position = fst (calcPosition ?s1 e), event = e, dragging = None\<rparr> =
     (emit (set_position ((resume ?s1)\<lparr>isDown := True\<rparr>) (fst (calcPosition ?s1 e))) Down
          \<lparr>position = fst (calcPosition ?s1 e), event = e, dragging = None\<rparr>)
       \<lparr>isPaused := True,
        log := log s @ filter is_once_call (published (resume s)
          (emit (set_position ((resume ?s1)\<lparr>isDown := True\<rparr>) (fst (calcPosition ?s1 e))) Down
          \<lparr>position = fst (calcPosition ?s1 e), event = e, dragging = None\<rparr>))\<rparr>"
      by (rule paused_emit_step) (simp_all add: assms(2,3) fr resume_def set_position_def)
    then show ?thesis
      by (simp add: OnDown run_handler_def onDown_eq rd True p)
  next
    case False
    have "published (resume s) (resume ?s1) = []"
      by (rule published_same) (simp add: resume_def fr)
    moreover have "?s1 = (resume ?s1)\<lparr>isPaused := True, log := log s\<rparr>"
      using assms(2) fr(4,11) by (simp add: resume_def)
    ultimately show ?thesis
      using False by (simp add: OnDown run_handler_def onDown_eq rd)
  qed
qed

lemma dispatch_paused:
  assumes "wf (eventMatrix tst en) s" and "isPaused s"
    and "\<forall>n. (n, On, RequestPointerLock) \<notin> set (emitter s)"
  shows "dispatch (eventMatrix tst en) s e =
     (dispatch (eventMatrix tst en) (resume s) e)
       \<lparr>isPaused := True,
        log := log s @ filter is_once_call
          (published (resume s) (dispatch (eventMatrix tst en) (resume s) e))\<rparr>"
proof -
  let ?M = "eventMatrix tst en"
  have wr: "wf ?M (resume s)"
    using assms(1) by (simp add: wf_def resume_def)
  have el: "elementListeners (resume s) = elementListeners s"
    by (simp add: resume_def)
  show ?thesis
  proof (cases rule: dispatch_cases [OF assms(1), of ?M e])
    case 1
    then have "etype e \<notin> fst ` set (elementListeners (resume s))"
      unfolding el by force
    then have "dispatch ?M (resume s) e = resume s"
      by (rule dispatch_unattached)
    moreover have "published (resume s) (resume s) = []"
      by (rule published_same) simp
    moreover have "s = (resume s)\<lparr>isPaused := True, log := log s\<rparr>"
      using assms(2) by (simp add: resume_def)
    ultimately show ?thesis
      using 1(1) by simp
  next
    case (2 h)
    have "dispatch ?M (resume s) e = run_handler ?M (resume s) h e"
      by (rule dispatch_wf [OF wr]) (simp add: el 2(1))
    then show ?thesis
      using run_handler_paused [OF assms, of h e] 2(2) by simp
  qed
qed

lemma published_handler_calls:
  assumes "wf (eventMatrix tst en) s"
    and "h = OnDown \<longrightarrow> fst (removeDuplicates (eventMatrix tst en) s e)"
  shows "\<exists>d. published s (run_handler (eventMatrix tst en) s h e) = calls s (handler_name h) d"
proof (cases h)
  case OnDown
  let ?s1 = "snd (removeDuplicates (eventMatrix tst en) s e)"
  let ?d = "\<lparr>position = fst (calcPosition ?s1 e), event = e, dragging = None\<rparr>"
  let ?v = "set_position (?s1\<lparr>isDown := True\<rparr>) (fst (calcPosition ?s1 e))"
  note fr = removeDuplicates_frame [OF assms(1), of e]
  have "published s (run_handler (eventMatrix tst en) s h e) = calls ?v Down ?d"
    using OnDown assms(2) by (simp add: run_handler_def onDown_eq published_emit fr)
  also have "\<dots> = calls s Down ?d"
    by (rule calls_cong) (simp_all add: fr)
  finally show ?thesis
    unfolding OnDown handler_name.simps by (rule exI)
next
  case OnMove
  let ?d = "\<lparr>position = fst (calcPosition s e), event = e, dragging = Some (isDown s)\<rparr>"
  have "published s (run_handler (eventMatrix tst en) s h e)
      = calls (set_position s (fst (calcPosition s e))) Move ?d"
    using OnMove by (simp add: run_handler_def onMove_eq published_emit)
  also have "\<dots> = calls s Move ?d"
    by (rule calls_cong) simp_all
  finally show ?thesis
    unfolding OnMove handler_name.simps by (rule exI)
next
  case OnUp
  let ?d = "\<lparr>position = fst (calcPosition s e), event = e, dragging = None\<rparr>"
  have "published s (run_handler (eventMatrix tst en) s h e)
      = calls (set_position (s\<lparr>isDown := False\<rparr>) (fst (calcPosition s e))) Up ?d"
    using OnUp by (simp add: run_handler_def onUp_eq published_emit)
  also have "\<dots> = calls s Up ?d"
    by (rule calls_cong) simp_all
  finally show ?thesis
    unfolding OnUp handler_name.simps by (rule exI)
qed





subsection \<open>Further properties\<close>

text \<open>
  The scenario of the specification: on an element where only the mouse family
  is supported, only the three mouse listeners are attached; a \<open>mousedown\<close> at
  (10, 20) followed by a \<open>mouseup\<close> at (15, 25) publishes \<open>down\<close> with position
  (10, 20) and \<open>up\<close> with position (15, 25), and \<open>isDown\<close> is false afterwards.
\<close>

theorem mouse_only_scenario:
  "elementListeners (Tap (eventMatrix (\<lambda>f. f = Mouse) (\<lambda>_. True)) None (Some (Element 0))) =
     [(''mousedown'', OnDown), (''mousemove'', OnMove), (''mouseup'', OnUp)] \<and>
   log (run (eventMatrix (\<lambda>f. f = Mouse) (\<lambda>_. True))
          (Tap (eventMatrix (\<lambda>f. f = Mouse) (\<lambda>_. True)) None (Some (Element 0)))
          [Subscribe On Down 1, Subscribe On Up 2,
           Dispatch \<lparr>etype = ''mousedown'', touches = None, clientX = Some 10, clientY = Some 20,
                      movementX = Some 0, movementY = Some 0\<rparr>,
           Dispatch \<lparr>etype = ''mouseup'', touches = None, clientX = Some 15, clientY = Some 25,
                      movementX = Some 5, movementY = Some 5\<rparr>]) =
     [Call On (UserCallback 1) Down
        \<lparr>position = (Some 10, Some 20),
         event = \<lparr>etype = ''mousedown'', touches = None, clientX = Some 10, clientY = Some 20,
                   movementX = Some 0, movementY = Some 0\<rparr>,
         dragging = None\<rparr>,
      Call On (UserCallback 2) Up
        \<lparr>position = (Some 15, Some 25),
         event = \<lparr>etype = ''mouseup'', touches = None, clientX = Some 15, clientY = Some 25,
                   movementX = Some 5, movementY = Some 5\<rparr>,
         dragging = None\<rparr>] \<and>
   \<not> isDown (run (eventMatrix (\<lambda>f. f = Mouse) (\<lambda>_. True))
          (Tap (eventMatrix (\<lambda>f. f = Mouse) (\<lambda>_. True)) None (Some (Element 0)))
          [Subscribe On Down 1, Subscribe On Up 2,
           Dispatch \<lparr>etype = ''mousedown'', touches = None, clientX = Some 10, clientY = Some 20,
                      movementX = Some 0, movementY = Some 0\<rparr>,
           Dispatch \<lparr>etype = ''mouseup'', touches = None, clientX = Some 15, clientY = Some 25,
                      movementX = Some 5, movementY = Some 5\<rparr>])"
  by (simp add: Tap_eventMatrix attached_eventMatrix fresh_def tap_on_def dispatch_def
        run_handler_def onDown_def onUp_def removeDuplicates_def calcPosition_def
        set_position_def emit_def calls_def throws_def truthy_def isLocked_def Let_def)

text \<open>
  In every state reachable after construction the element holds exactly the
  listeners of the families whose active flag is set.
\<close>

theorem listeners_match_active:
  "elementListeners (run (eventMatrix tst en) (Tap (eventMatrix tst en) lock el) acts) =
     attached (eventMatrix tst en)
       (active (run (eventMatrix tst en) (Tap (eventMatrix tst en) lock el) acts))"
  using wf_reachable [of tst en lock el acts] by (simp only: wf_def)

text \<open>
  A request made while pointer lock is not engaged adds a listener for
  \<open>pointerlockchange\<close> and a \<open>once.down\<close> subscription that asks for the lock, and
  its promise is resolved by the next \<open>pointerlockchange\<close>.
\<close>

theorem request_resolves_on_lockChange:
  assumes "\<not> isLocked s"
  shows "documentListeners (snd (pointerLock_request s)) =
           documentListeners s @ [fst (pointerLock_request s)] \<and>
         emitter (snd (pointerLock_request s)) = emitter s @ [(Down, Once, RequestPointerLock)] \<and>
         fst (pointerLock_request s)
           \<in> set (settled (lockChange (snd (pointerLock_request s)) l))"
  using assms by (simp add: pointerLock_request_def Let_def isLocked_def tap_once_def lockChange_def)

theorem request_resolves_on_lockChange_witness:
  "\<not> isLocked (fresh None) \<and>
   fst (pointerLock_request (fresh None))
     \<in> set (settled (lockChange (snd (pointerLock_request (fresh None))) (Some Window)))"
proof -
  have "\<not> isLocked (fresh None)"
    by (simp add: isLocked_def fresh_def)
  with request_resolves_on_lockChange [of "fresh None" "Some Window"] show ?thesis
    by (intro conjI) simp_all
qed

text \<open>
  On an instance whose target is the window, the callback that
  \<open>pointerLock.request\<close> subscribes throws at the next down event: it is called
  and removed, and a callback subscribed through \<open>once.down\<close> after it is not
  called and stays subscribed.
\<close>

theorem request_on_window_stops_delivery:
  "published (run (eventMatrix (\<lambda>_. True) (\<lambda>_. True))
       (Tap (eventMatrix (\<lambda>_. True) (\<lambda>_. True)) None None)
       [Request, Subscribe Once Down 2])
     (dispatch (eventMatrix (\<lambda>_. True) (\<lambda>_. True))
        (run (eventMatrix (\<lambda>_. True) (\<lambda>_. True))
       (Tap (eventMatrix (\<lambda>_. True) (\<lambda>_. True)) None None)
       [Request, Subscribe Once Down 2])
        \<lparr>etype = ''mousedown'', touches = None, clientX = Some 10, clientY = Some 20,
          movementX = Some 0, movementY = Some 0\<rparr>) =
   [Call Once RequestPointerLock Down
      \<lparr>position = (Some 10, Some 20),
       event = \<lparr>etype = ''mousedown'', touches = None, clientX = Some 10, clientY = Some 20,
          movementX = Some 0, movementY = Some 0\<rparr>,
       dragging = None\<rparr>] \<and>
   emitter (dispatch (eventMatrix (\<lambda>_. True) (\<lambda>_. True))
        (run (eventMatrix (\<lambda>_. True) (\<lambda>_. True))
       (Tap (eventMatrix (\<lambda>_. True) (\<lambda>_. True)) None None)
       [Request, Subscribe Once Down 2])
        \<lparr>etype = ''mousedown'', touches = None, clientX = Some 10, clientY = Some 20,
          movementX = Some 0, movementY = Some 0\<rparr>) = [(Down, Once, UserCallback 2)]"
  (is "published (run ?M ?T ?as) (dispatch _ _ ?e) = _ \<and> _")
proof -
  define s where "s = run ?M ?T ?as"
  have w: "wf ?M s" unfolding s_def by (rule wf_reachable)
  have f: "elementListeners s = elementListeners ?T" "active s = active ?T"
    "registered s = registered ?T" "currentPosition s = (Some (- 1), Some (- 1))"
    "emitter s = [(Down, Once, RequestPointerLock), (Down, Once, UserCallback 2)]"
    "isPaused s = False" "pointerLockElement s = None" "domElement s = Window"
    by (simp_all add: s_def pointerLock_request_def Let_def isLocked_def tap_once_def
          Tap_all_fields)
  have d: "dispatch ?M s ?e = onDown ?M s ?e"
    using dispatch_down [OF w, of ?e] by (simp add: f Tap_all_fields)
  have ok: "fst (removeDuplicates ?M s ?e)"
    using removeDuplicates_discards [OF w, of ?e] by (simp add: f Tap_all_fields)
  let ?s1 = "snd (removeDuplicates ?M s ?e)"
  have p: "fst (calcPosition ?s1 ?e) = (Some 10, Some 20)"
    by (simp add: calcPosition_def Let_def truthy_def isLocked_def f removeDuplicates_frame [OF w])
  have "published s (dispatch ?M s ?e) =
      [Call Once RequestPointerLock Down
         \<lparr>position = (Some 10, Some 20), event = ?e, dragging = None\<rparr>] \<and>
    emitter (dispatch ?M s ?e) = [(Down, Once, UserCallback 2)]"
    unfolding d
    by (simp add: onDown_eq ok p published_def calls_def emit_def throws_def f
          removeDuplicates_frame [OF w])
  then show ?thesis unfolding s_def .
qed

end
